theory Spec2Isabelle
  imports Complex_Main "HOL-Library.Multiset" "HOL-Library.Log_Nat"
begin

section \<open>JavaScript primitives used by \<^verbatim>\<open>main.js\<close>\<close>

text \<open>
  Numbers.  A JavaScript number is an IEEE double; every finite double is a rational, so
  finite numbers are values of type \<^typ>\<open>rat\<close> and the integers the code produces with
  \<^verbatim>\<open>Math.round\<close> are values of type \<^typ>\<open>int\<close>.  A multiplication or division of
  doubles returns the double nearest the exact result, a tie going to the even
  significand: \<open>double_of\<close> below, applied to the product of lines 382--385 and to every
  quotient.  The sums, differences and the area product of lines 405--411 are taken on
  integers and are exact for doubles below \<open>2\<^sup>5\<^sup>3\<close>.  A result beyond the largest double
  (\<^verbatim>\<open>Infinity\<close>) is not modelled.  The other non-finite values arise in \<^verbatim>\<open>processPage\<close>
  only from a division by zero; that division returns \<open>None\<close>.  A detector score or
  coordinate that is itself \<^verbatim>\<open>NaN\<close> is outside the model.
\<close>

definition ilog2_near :: "rat \<Rightarrow> int \<Rightarrow> int" where
  "ilog2_near q k = (if 2 powi k \<le> q then k else k - 1)"

definition ilog2 :: "rat \<Rightarrow> int" where
  \<comment> \<open>For \<open>q > 0\<close>, the exponent \<open>e\<close> with \<open>2\<^sup>e \<le> q < 2\<^sup>e\<^sup>+\<^sup>1\<close>: the difference of the bit
      lengths of numerator and denominator, or one less.\<close>
  "ilog2 q = (case quotient_of q of (n, d) \<Rightarrow> ilog2_near q (bitlen n - bitlen d))"

definition round_even_from :: "rat \<Rightarrow> int \<Rightarrow> int" where
  "round_even_from x k =
     (if x - of_int k < 1 / 2 then k
      else if 1 / 2 < x - of_int k then k + 1
      else if even k then k else k + 1)"

definition round_even :: "rat \<Rightarrow> int" where
  \<comment> \<open>The nearest integer, a tie going to the even one.\<close>
  "round_even x = round_even_from x \<lfloor>x\<rfloor>"

definition round_to_ulp :: "rat \<Rightarrow> rat \<Rightarrow> rat" where
  \<comment> \<open>The multiple of \<open>ulp\<close> nearest \<open>q\<close>, a tie going to the even multiple.\<close>
  "round_to_ulp q ulp = sgn q * of_int (round_even (\<bar>q\<bar> / ulp)) * ulp"

definition double_of :: "rat \<Rightarrow> rat" where
  \<comment> \<open>The double nearest \<open>q\<close> (IEEE 754 binary64, round to nearest, ties to even): a
      significand of 53 bits, so a unit in the last place of \<open>2\<^sup>e\<^sup>-\<^sup>5\<^sup>2\<close>, and of \<open>2\<^sup>-\<^sup>1\<^sup>0\<^sup>7\<^sup>4\<close> for
      the subnormal numbers below \<open>2\<^sup>-\<^sup>1\<^sup>0\<^sup>2\<^sup>2\<close>.\<close>
  "double_of q =
     (if q = 0 then 0 else round_to_ulp q (2 powi (max (ilog2 \<bar>q\<bar>) (- 1022) - 52)))"

definition Math_round :: "rat \<Rightarrow> int" where
  \<comment> \<open>\<^verbatim>\<open>Math.round(x)\<close>: the integer nearest \<open>x\<close>, a tie going towards \<open>+\<infinity>\<close>.\<close>
  "Math_round x = \<lfloor>x + 1 / 2\<rfloor>"

definition toFixed :: "nat \<Rightarrow> rat \<Rightarrow> rat" where
  \<comment> \<open>\<^verbatim>\<open>parseFloat(x.toFixed(f))\<close>.  ECMAScript \<^verbatim>\<open>Number.prototype.toFixed\<close>: a negative
      \<open>x\<close> is negated and the sign put back; then "let \<open>n\<close> be an integer for which
      \<open>n / 10^f - x\<close> is as close to zero as possible; if there are two such \<open>n\<close>, pick the
      larger".  The value of the decimal string is returned.\<close>
  "toFixed f x =
     (if x < 0 then - (of_int \<lfloor>(- x) * 10 ^ f + 1 / 2\<rfloor> / 10 ^ f)
      else of_int \<lfloor>x * 10 ^ f + 1 / 2\<rfloor> / 10 ^ f)"

definition js_div :: "rat \<Rightarrow> rat \<Rightarrow> rat option" where
  \<comment> \<open>\<^verbatim>\<open>a / b\<close>, the double nearest the quotient; \<open>None\<close> is the non-finite result (\<^verbatim>\<open>NaN\<close> or \<^verbatim>\<open>\<plusminus>Infinity\<close>) of a zero
      divisor, which \<^verbatim>\<open>toFixed\<close> and \<^verbatim>\<open>parseFloat\<close> hand on unchanged.\<close>
  "js_div a b = (if b = 0 then None else Some (double_of (a / b)))"

fun string_of_nat :: "nat \<Rightarrow> string" where
  "string_of_nat n =
     (if n < 10 then [''0123456789'' ! n]
      else string_of_nat (n div 10) @ [''0123456789'' ! (n mod 10)])"

definition string_of_int :: "int \<Rightarrow> string" where
  \<comment> \<open>An integer inside a template literal, \<^verbatim>\<open>`${n}`\<close>.\<close>
  "string_of_int i = (if i < 0 then CHR ''-'' # string_of_nat (nat (- i)) else string_of_nat (nat i))"

fun insort_cmp :: "('a \<Rightarrow> 'a \<Rightarrow> int) \<Rightarrow> 'a \<Rightarrow> 'a list \<Rightarrow> 'a list" where
  "insort_cmp cmp x [] = [x]"
| "insort_cmp cmp x (y # ys) =
     (if cmp x y \<le> 0 then x # y # ys else y # insort_cmp cmp x ys)"

definition js_sort :: "('a \<Rightarrow> 'a \<Rightarrow> int) \<Rightarrow> 'a list \<Rightarrow> 'a list" where
  \<comment> \<open>The stable sort, by insertion: what ECMAScript prescribes for
      \<^verbatim>\<open>Array.prototype.sort(cmp)\<close> when \<open>cmp\<close> is a consistent comparator for the elements.\<close>
  "js_sort cmp xs = foldr (insort_cmp cmp) xs []"

definition consistent_comparator :: "('a \<Rightarrow> 'a \<Rightarrow> int) \<Rightarrow> 'a list \<Rightarrow> bool" where
  \<comment> \<open>ECMAScript, \<^verbatim>\<open>Array.prototype.sort\<close>: \<open>cmp\<close> is a consistent comparator for the values
      of the array when, on them, \<open>cmp a a = 0\<close>, being equal (\<open>cmp a b = 0\<close>) is symmetric
      and transitive, and being smaller (\<open>cmp a b < 0\<close>) and being larger are transitive.\<close>
  "consistent_comparator cmp xs =
     list_all (\<lambda>a. cmp a a = 0 \<and>
       list_all (\<lambda>b. (cmp a b = 0 \<longrightarrow> cmp b a = 0) \<and>
         list_all (\<lambda>c. (cmp a b = 0 \<and> cmp b c = 0 \<longrightarrow> cmp a c = 0)
                       \<and> (cmp a b < 0 \<and> cmp b c < 0 \<longrightarrow> cmp a c < 0)
                       \<and> (cmp a b > 0 \<and> cmp b c > 0 \<longrightarrow> cmp a c > 0)) xs) xs) xs"

definition array_sort ::
  "(('a \<Rightarrow> 'a \<Rightarrow> int) \<Rightarrow> 'a list \<Rightarrow> 'a list) \<Rightarrow> ('a \<Rightarrow> 'a \<Rightarrow> int) \<Rightarrow> 'a list \<Rightarrow> 'a list" where
  \<comment> \<open>\<^verbatim>\<open>xs.sort(cmp)\<close>, the array after the call.  For a consistent comparator the result is
      the stable sort.  Otherwise "the sort order is implementation-defined": it is the
      order the engine gives, always a permutation of the array; \<open>engine\<close> stands for the
      JavaScript engine's sort and is used on such arrays only.\<close>
  "array_sort engine cmp xs =
     (if consistent_comparator cmp xs then js_sort cmp xs
      else if mset (engine cmp xs) = mset xs then engine cmp xs
      else xs)"

section \<open>Configuration (\<^verbatim>\<open>main.js\<close>, lines 44--71)\<close>

definition CONFIDENCE_THRESHOLD :: rat where
  "CONFIDENCE_THRESHOLD = 50 / 100"

definition ANNOTATED_DIR :: string where
  \<comment> \<open>\<^verbatim>\<open>"./output/annotated_frames"\<close> as \<^verbatim>\<open>path.join\<close> normalises it.\<close>
  "ANNOTATED_DIR = ''output/annotated_frames''"

definition id2label :: "rat \<Rightarrow> string option" where
  \<comment> \<open>The object literal \<^verbatim>\<open>id2label\<close>, read at a numeric key.\<close>
  "id2label i =
     (if i = 0 then Some ''Caption''
      else if i = 1 then Some ''Footnote''
      else if i = 2 then Some ''Formula''
      else if i = 3 then Some ''List-item''
      else if i = 4 then Some ''Page-footer''
      else if i = 5 then Some ''Page-header''
      else if i = 6 then Some ''Picture''
      else if i = 7 then Some ''Section-header''
      else if i = 8 then Some ''Table''
      else if i = 9 then Some ''Text''
      else if i = 10 then Some ''Title''
      else None)"

section \<open>Detections\<close>

text \<open>
  The object literal built on lines 394--413.  The later stages add properties to it:
  \<^verbatim>\<open>reading_order\<close> (line 429), \<^verbatim>\<open>pageNumber\<close> (lines 522 and 575) and the page context
  (lines 523--526).  Each stage is a record extension, so a selector of an earlier stage
  reads the later ones too.
\<close>

record detection =
  det_id :: string
  bbox :: "int list"
  bbox_normalized :: "rat option list"
  label :: string
  confidence :: rat
  area :: int
  center :: "int list"
  width :: int
  height :: int
  extractedText :: string

record seq_detection = detection +
  reading_order :: int

record paged_detection = seq_detection +
  pageNumber :: int

record enriched_detection = paged_detection +
  sourceImagePath :: string
  annotatedImagePath :: string
  pageWidth :: int
  pageHeight :: int

text \<open>A raw prediction: the array \<^verbatim>\<open>[xmin, ymin, xmax, ymax, score, id]\<close> of line 378.\<close>

type_synonym prediction = "rat \<times> rat \<times> rat \<times> rat \<times> rat \<times> rat"

definition score_of :: "prediction \<Rightarrow> rat" where
  "score_of p = (case p of (xmin, ymin, xmax, ymax, score, cid) \<Rightarrow> score)"

text \<open>
  What the external collaborators hand to \<^verbatim>\<open>processPage\<close> for one page: the decoded
  image's size, the scale factors \<^verbatim>\<open>xs\<close>, \<^verbatim>\<open>ys\<close> of line 371, the detector's
  predictions and the measured processing time.
\<close>

record page_input =
  image_width :: int
  image_height :: int
  scale_xs :: rat
  scale_ys :: rat
  predictions :: "prediction list"
  elapsed :: rat

record page_result =
  pr_pageNumber :: int
  pr_processingTime :: rat
  pr_detections :: "seq_detection list"
  pr_annotatedPath :: string
  pr_sourceImagePath :: string
  pr_imageWidth :: int
  pr_imageHeight :: int

section \<open>\<^verbatim>\<open>processPage\<close> (lines 356--457)\<close>

text \<open>
  \<^verbatim>\<open>extractTextWithRetry\<close> drives the OCR worker and the file system; it is a parameter
  \<open>ocr\<close> taking the image path, the box and the label.
\<close>

type_synonym ocr = "string \<Rightarrow> int list \<Rightarrow> string \<Rightarrow> string"

text \<open>The engine's sort of an array of detections, see \<open>array_sort\<close>.\<close>

type_synonym sort_engine = "(detection \<Rightarrow> detection \<Rightarrow> int) \<Rightarrow> detection list \<Rightarrow> detection list"

definition make_detection ::
  "ocr \<Rightarrow> string \<Rightarrow> int \<Rightarrow> page_input \<Rightarrow> nat \<Rightarrow> prediction \<Rightarrow> detection" where
  \<comment> \<open>Lines 381--413; \<open>n\<close> is \<^verbatim>\<open>detections.length\<close> when the object is built.\<close>
  "make_detection extractTextWithRetry imagePath pageNo inp n p =
     (case p of (xmin, ymin, xmax, ymax, score, cid) \<Rightarrow>
        let bbox = [Math_round (double_of (xmin * scale_xs inp)),
                    Math_round (double_of (ymin * scale_ys inp)),
                    Math_round (double_of (xmax * scale_xs inp)),
                    Math_round (double_of (ymax * scale_ys inp))];
            label = (case id2label cid of Some l \<Rightarrow> l | None \<Rightarrow> ''Unknown'');
            extractedText = extractTextWithRetry imagePath bbox label
        in \<lparr> det_id = ''page'' @ string_of_int pageNo @ ''_detection'' @ string_of_nat (n + 1),
             bbox = bbox,
             bbox_normalized =
               [map_option (toFixed 4) (js_div (of_int (bbox ! 0)) (of_int (image_width inp))),
                map_option (toFixed 4) (js_div (of_int (bbox ! 1)) (of_int (image_height inp))),
                map_option (toFixed 4) (js_div (of_int (bbox ! 2)) (of_int (image_width inp))),
                map_option (toFixed 4) (js_div (of_int (bbox ! 3)) (of_int (image_height inp)))],
             label = label,
             confidence = toFixed 3 score,
             area = Math_round (of_int ((bbox ! 2 - bbox ! 0) * (bbox ! 3 - bbox ! 1))),
             center = [Math_round (of_int (bbox ! 0 + bbox ! 2) / 2),
                       Math_round (of_int (bbox ! 1 + bbox ! 3) / 2)],
             width = Math_round (of_int (bbox ! 2 - bbox ! 0)),
             height = Math_round (of_int (bbox ! 3 - bbox ! 1)),
             extractedText = extractedText \<rparr>)"

fun collect_detections ::
  "ocr \<Rightarrow> string \<Rightarrow> int \<Rightarrow> page_input \<Rightarrow> prediction list \<Rightarrow> detection list \<Rightarrow> detection list"
where
  \<comment> \<open>The loop of lines 378--416 over the predictions; the last argument is the array
      \<^verbatim>\<open>detections\<close> built so far.\<close>
  "collect_detections ex imagePath pageNo inp [] detections = detections"
| "collect_detections ex imagePath pageNo inp (p # ps) detections =
     (if score_of p < CONFIDENCE_THRESHOLD
      then collect_detections ex imagePath pageNo inp ps detections
      else collect_detections ex imagePath pageNo inp ps
             (detections @ [make_detection ex imagePath pageNo inp (length detections) p]))"

definition reading_cmp :: "'a detection_scheme \<Rightarrow> 'a detection_scheme \<Rightarrow> int" where
  \<comment> \<open>The comparator of lines 421--425.\<close>
  "reading_cmp a b =
     (let yDiff = center a ! 1 - center b ! 1
      in if \<bar>yDiff\<bar> > 20 then yDiff else center a ! 0 - center b ! 0)"

definition set_reading_order :: "detection \<Rightarrow> nat \<Rightarrow> seq_detection" where
  \<comment> \<open>Line 429: \<^verbatim>\<open>detection.reading_order = index + 1\<close>.\<close>
  "set_reading_order d index' = detection.extend d (seq_detection.fields (int index' + 1))"

definition add_reading_order :: "detection list \<Rightarrow> seq_detection list" where
  \<comment> \<open>The \<^verbatim>\<open>forEach\<close> of lines 428--430.\<close>
  "add_reading_order ds = map (\<lambda>(d, index'). set_reading_order d index') (zip ds [0 ..< length ds])"

definition processPage ::
  "sort_engine \<Rightarrow> ocr \<Rightarrow> page_input \<Rightarrow> string \<Rightarrow> int \<Rightarrow> page_result" where
  \<comment> \<open>The returned object of lines 444--452, for a page whose image, inference and
      annotation succeed.  \<^verbatim>\<open>createAnnotatedImage\<close> only writes a file and is left out.\<close>
  "processPage engine ex inp imagePath pageNo =
     (let detections = collect_detections ex imagePath pageNo inp (predictions inp) [];
          detections = array_sort engine reading_cmp detections;
          detections = add_reading_order detections;
          annotatedPath = ANNOTATED_DIR @ ''/page_'' @ string_of_int pageNo @ ''_annotated.png''
      in \<lparr> pr_pageNumber = pageNo,
           pr_processingTime = toFixed 2 (elapsed inp),
           pr_detections = detections,
           pr_annotatedPath = annotatedPath,
           pr_sourceImagePath = imagePath,
           pr_imageWidth = image_width inp,
           pr_imageHeight = image_height inp \<rparr>)"

section \<open>Strings\<close>

fun replace_first :: "string \<Rightarrow> string \<Rightarrow> string \<Rightarrow> string" where
  \<comment> \<open>\<^verbatim>\<open>s.replace(pat, rep)\<close> with a string pattern: the first occurrence only.\<close>
  "replace_first pat rep [] = (if pat = [] then rep else [])"
| "replace_first pat rep (c # cs) =
     (if take (length pat) (c # cs) = pat then rep @ drop (length pat) (c # cs)
      else c # replace_first pat rep cs)"

fun str_includes :: "string \<Rightarrow> string \<Rightarrow> bool" where
  \<comment> \<open>\<^verbatim>\<open>s.includes(pat)\<close>.\<close>
  "str_includes [] pat = (pat = [])"
| "str_includes (c # cs) pat = (take (length pat) (c # cs) = pat \<or> str_includes cs pat)"

definition toLowerCase :: "string \<Rightarrow> string" where
  \<comment> \<open>On ASCII letters; the labels have no others.\<close>
  "toLowerCase s =
     map (\<lambda>c. let n = (of_char c :: nat) in if 65 \<le> n \<and> n \<le> 90 then char_of (n + 32) else c) s"

definition is_space :: "char \<Rightarrow> bool" where
  "is_space c = (c \<in> set [CHR '' '', CHR 0x09, CHR 0x0A, CHR 0x0B, CHR 0x0C, CHR 0x0D])"

definition digit_val :: "char \<Rightarrow> nat option" where
  "digit_val c =
     (let n = (of_char c :: nat)
      in if 48 \<le> n \<and> n \<le> 57 then Some (n - 48)
         else if 97 \<le> n \<and> n \<le> 102 then Some (n - 87)
         else if 65 \<le> n \<and> n \<le> 70 then Some (n - 55)
         else None)"

definition is_digit :: "nat \<Rightarrow> char \<Rightarrow> bool" where
  "is_digit radix c = (case digit_val c of Some v \<Rightarrow> v < radix | None \<Rightarrow> False)"

definition parseInt :: "string \<Rightarrow> int option" where
  \<comment> \<open>\<^verbatim>\<open>parseInt(s)\<close> with no radix: leading white space, a sign, a \<^verbatim>\<open>0x\<close> prefix, then
      the longest run of digits; \<open>None\<close> is \<^verbatim>\<open>NaN\<close>.\<close>
  "parseInt s =
     (let t = dropWhile is_space s;
          neg = (t \<noteq> [] \<and> hd t = CHR ''-'');
          u = (if t \<noteq> [] \<and> (hd t = CHR ''-'' \<or> hd t = CHR ''+'') then tl t else t);
          hex = (take 2 u = ''0x'' \<or> take 2 u = ''0X'');
          radix = (if hex then 16 else 10 :: nat);
          ds = takeWhile (is_digit radix) (if hex then drop 2 u else u)
      in if ds = [] then None
         else Some ((if neg then - 1 else 1) *
                    int (foldl (\<lambda>acc c. radix * acc + the (digit_val c)) 0 ds)))"

definition js_ge :: "int option \<Rightarrow> int option \<Rightarrow> bool" where
  \<comment> \<open>\<^verbatim>\<open>a >= b\<close> on numbers: false when either side is \<^verbatim>\<open>NaN\<close>.\<close>
  "js_ge a b = (case (a, b) of (Some x, Some y) \<Rightarrow> x \<ge> y | _ \<Rightarrow> False)"

definition js_lt :: "int option \<Rightarrow> int option \<Rightarrow> bool" where
  "js_lt a b = (case (a, b) of (Some x, Some y) \<Rightarrow> x < y | _ \<Rightarrow> False)"

section \<open>\<^verbatim>\<open>buildDocumentHierarchy\<close> (lines 646--744)\<close>

text \<open>
  The nodes.  A content node is built once and never written again, so it is a value.  A
  heading node (and a default section) is an object the code keeps writing to through two
  references, the one in its parent's \<^verbatim>\<open>children\<close> (or in \<^verbatim>\<open>hierarchy\<close>) and the one on
  \<^verbatim>\<open>headingStack\<close>; it lives in a heap, a list indexed by address, and the references are
  addresses.  A default section has no \<^verbatim>\<open>bbox\<close>, \<^verbatim>\<open>bbox_normalized\<close> and \<^verbatim>\<open>confidence\<close>
  property: \<open>None\<close>.
\<close>

record content_node =
  c_id :: string
  c_type :: string
  c_content :: string
  c_bbox :: "int list"
  c_bbox_normalized :: "rat option list"
  c_page :: int
  c_confidence :: rat
  c_width :: int
  c_height :: int
  c_area :: int
  c_reading_order :: int

datatype 'c heading_node = HeadingNode
  (h_id: string) (h_title: string) (h_level: string) (h_page: int)
  (h_bbox: "int list option") (h_bbox_normalized: "rat option list option")
  (h_confidence: "rat option") (h_children: "'c list")

datatype child = Heading nat | Content content_node

type_synonym heap = "child heading_node list"

record builder =
  heap :: heap
  hierarchy :: "nat list"
  headingStack :: "nat list"

definition headingLevels :: "string \<Rightarrow> string option" where
  \<comment> \<open>The object literal of lines 661--666, read at a label.  The labels that reach it are
      the values of \<open>id2label\<close> and \<^verbatim>\<open>"Unknown"\<close> (line 388), none of which names an
      inherited property.\<close>
  "headingLevels l =
     (if l = ''Title'' then Some ''H1''
      else if l = ''Section-header'' then Some ''H2''
      else if l = ''Page-header'' then Some ''H3''
      else if l = ''Caption'' then Some ''H4''
      else None)"

definition level_number :: "string \<Rightarrow> int option" where
  \<comment> \<open>\<^verbatim>\<open>parseInt(level.replace("H", ""))\<close>, lines 687 and 692--694.\<close>
  "level_number level = parseInt (replace_first ''H'' [] level)"

definition push_child :: "heap \<Rightarrow> nat \<Rightarrow> child \<Rightarrow> heap" where
  \<comment> \<open>\<^verbatim>\<open>node.children.push(c)\<close> for the object at address \<open>a\<close>.\<close>
  "push_child h a c =
     h[a := (case h ! a of HeadingNode i t l p b bn cf ch \<Rightarrow> HeadingNode i t l p b bn cf (ch @ [c]))]"

function pop_headings :: "heap \<Rightarrow> int option \<Rightarrow> nat list \<Rightarrow> nat list" where
  \<comment> \<open>The \<^verbatim>\<open>while\<close> loop of lines 690--697; the top of the stack is the last element.\<close>
  "pop_headings h levelNum stack =
     (if length stack > 0 \<and> js_ge (level_number (h_level (h ! last stack))) levelNum
      then pop_headings h levelNum (butlast stack)
      else stack)"
  by pat_completeness auto
termination
  by (relation "measure (\<lambda>(h, levelNum, stack). length stack)") auto

declare pop_headings.simps [simp del]

definition heading_title :: "'a enriched_detection_scheme \<Rightarrow> string" where
  \<comment> \<open>Line 677: \<^verbatim>\<open>extractedText || `${label} (Page ${pageNumber})`\<close>; only the empty string is
      falsy.\<close>
  "heading_title d =
     (if extractedText d \<noteq> [] then extractedText d
      else label d @ '' (Page '' @ string_of_int (pageNumber d) @ '')'')"

definition content_text :: "'a enriched_detection_scheme \<Rightarrow> string" where
  \<comment> \<open>Line 713: \<^verbatim>\<open>extractedText || `${label} content (Page ${pageNumber})`\<close>.\<close>
  "content_text d =
     (if extractedText d \<noteq> [] then extractedText d
      else label d @ '' content (Page '' @ string_of_int (pageNumber d) @ '')'')"

definition headingNode_of :: "string \<Rightarrow> enriched_detection \<Rightarrow> child heading_node" where
  \<comment> \<open>Lines 675--684.\<close>
  "headingNode_of level d =
     HeadingNode (det_id d) (heading_title d) level (pageNumber d)
       (Some (bbox d)) (Some (bbox_normalized d)) (Some (confidence d)) []"

definition contentNode_of :: "enriched_detection \<Rightarrow> content_node" where
  \<comment> \<open>Lines 710--722.\<close>
  "contentNode_of d =
     \<lparr> c_id = det_id d,
       c_type = replace_first ''-'' ''_'' (toLowerCase (label d)),
       c_content = content_text d,
       c_bbox = bbox d,
       c_bbox_normalized = bbox_normalized d,
       c_page = pageNumber d,
       c_confidence = confidence d,
       c_width = width d,
       c_height = height d,
       c_area = area d,
       c_reading_order = reading_order d \<rparr>"

definition defaultSection_of :: "int \<Rightarrow> content_node \<Rightarrow> child heading_node" where
  \<comment> \<open>Lines 729--735.\<close>
  "defaultSection_of pageNo contentNode =
     HeadingNode (''default_section_page_'' @ string_of_int pageNo)
       (''Content (Page '' @ string_of_int pageNo @ '')'') ''H1'' pageNo
       None None None [Content contentNode]"

definition process_detection :: "builder \<Rightarrow> enriched_detection \<Rightarrow> builder" where
  \<comment> \<open>The body of the \<^verbatim>\<open>forEach\<close> of lines 668--740.  A new object gets the next free
      address, \<open>length (heap st)\<close>.\<close>
  "process_detection st detection =
     (case headingLevels (label detection) of
        Some level \<Rightarrow>
          let headingNode = headingNode_of level detection;
              levelNum = level_number level;
              stack = pop_headings (heap st) levelNum (headingStack st);
              a = length (heap st)
          in if length stack = 0
             then \<lparr> heap = heap st @ [headingNode],
                    hierarchy = hierarchy st @ [a],
                    headingStack = stack @ [a] \<rparr>
             else \<lparr> heap = push_child (heap st @ [headingNode]) (last stack) (Heading a),
                    hierarchy = hierarchy st,
                    headingStack = stack @ [a] \<rparr>
      | None \<Rightarrow>
          let contentNode = contentNode_of detection
          in if length (headingStack st) > 0
             then \<lparr> heap = push_child (heap st) (last (headingStack st)) (Content contentNode),
                    hierarchy = hierarchy st,
                    headingStack = headingStack st \<rparr>
             else \<lparr> heap = heap st @ [defaultSection_of (pageNumber detection) contentNode],
                    hierarchy = hierarchy st @ [length (heap st)],
                    headingStack = headingStack st @ [length (heap st)] \<rparr>)"

definition page_cmp :: "'a paged_detection_scheme \<Rightarrow> 'a paged_detection_scheme \<Rightarrow> int" where
  \<comment> \<open>The comparator of lines 650--655.\<close>
  "page_cmp a b =
     (if pageNumber a \<noteq> pageNumber b then pageNumber a - pageNumber b
      else reading_order a - reading_order b)"

definition init_builder :: builder where
  "init_builder = \<lparr> heap = [], hierarchy = [], headingStack = [] \<rparr>"

definition run_builder :: "enriched_detection list \<Rightarrow> builder" where
  \<comment> \<open>The \<^verbatim>\<open>forEach\<close> over the sorted detections, from the empty hierarchy and stack.\<close>
  "run_builder ds = foldl process_detection init_builder ds"

record build_result =
  br_hierarchy :: "nat list"
  br_heap :: heap
  br_detections :: "enriched_detection list"

definition buildDocumentHierarchy :: "enriched_detection list \<Rightarrow> build_result" where
  \<comment> \<open>\<^verbatim>\<open>detections.sort\<close> sorts the caller's array in place: \<open>br_detections\<close> is that array
      after the call.  The comparator \<open>page_cmp\<close> is consistent on every array, so the sort
      is the stable one.  \<open>br_hierarchy\<close> with \<open>br_heap\<close> is the returned \<^verbatim>\<open>hierarchy\<close>.\<close>
  "buildDocumentHierarchy detections =
     (let sortedDetections = js_sort page_cmp detections;
          st = run_builder sortedDetections
      in \<lparr> br_hierarchy = hierarchy st, br_heap = heap st, br_detections = sortedDetections \<rparr>)"

section \<open>\<^verbatim>\<open>saveBoundingBoxesToJson\<close> (lines 508--643)\<close>

definition enrich :: "page_result \<Rightarrow> seq_detection \<Rightarrow> enriched_detection" where
  \<comment> \<open>Lines 520--527: a new object, the spread of \<^verbatim>\<open>detection\<close> and the page context.\<close>
  "enrich pageResult detection =
     paged_detection.extend
       (seq_detection.extend detection (paged_detection.fields (pr_pageNumber pageResult)))
       (enriched_detection.fields (pr_sourceImagePath pageResult) (pr_annotatedPath pageResult)
          (pr_imageWidth pageResult) (pr_imageHeight pageResult))"

fun group_push :: "(string \<times> 'a list) list \<Rightarrow> string \<Rightarrow> 'a \<Rightarrow> (string \<times> 'a list) list" where
  \<comment> \<open>Lines 532--535 on \<^verbatim>\<open>elementsByType\<close>, an object whose keys keep their insertion order.\<close>
  "group_push [] k v = [(k, [v])]"
| "group_push ((k', vs) # rest) k v =
     (if k' = k then (k', vs @ [v]) # rest else (k', vs) # group_push rest k v)"

definition collect_page ::
  "(string \<times> enriched_detection list) list \<times> enriched_detection list \<Rightarrow> page_result \<Rightarrow>
   (string \<times> enriched_detection list) list \<times> enriched_detection list" where
  \<comment> \<open>The inner \<^verbatim>\<open>forEach\<close> of lines 518--536 on the pair
      \<^verbatim>\<open>(elementsByType, allDetections)\<close>.\<close>
  "collect_page acc pageResult =
     foldl (\<lambda>(elementsByType, allDetections) detection.
              let enrichedDetection = enrich pageResult detection
              in (group_push elementsByType (label detection) enrichedDetection,
                  allDetections @ [enrichedDetection]))
       acc (pr_detections pageResult)"

definition collect_results ::
  "page_result list \<Rightarrow> (string \<times> enriched_detection list) list \<times> enriched_detection list" where
  \<comment> \<open>The outer \<^verbatim>\<open>forEach\<close> of lines 517--537.\<close>
  "collect_results results = foldl collect_page ([], []) results"

definition elements_of ::
  "(string \<times> enriched_detection list) list \<Rightarrow> string \<Rightarrow> enriched_detection list" where
  \<comment> \<open>\<^verbatim>\<open>elementsByType[key] || []\<close>.\<close>
  "elements_of elementsByType k = (case map_of elementsByType k of Some ds \<Rightarrow> ds | None \<Rightarrow> [])"

record suggestion =
  sg_id :: string
  sg_pageNumber :: int
  sg_bbox :: "int list"
  sg_bbox_normalized :: "rat option list"
  sg_priority :: string
  sg_processingNote :: "string option"

definition suggest :: "string \<Rightarrow> string option \<Rightarrow> enriched_detection \<Rightarrow> suggestion" where
  "suggest priority note det =
     \<lparr> sg_id = det_id det, sg_pageNumber = pageNumber det, sg_bbox = bbox det,
       sg_bbox_normalized = bbox_normalized det, sg_priority = priority,
       sg_processingNote = note \<rparr>"

record ocr_suggestions =
  textElements :: "suggestion list"
  titleElements :: "suggestion list"
  tableElements :: "suggestion list"
  listElements :: "suggestion list"

record page_view =
  pv_pageNumber :: int
  pv_processingTime :: rat
  pv_sourceImagePath :: string
  pv_annotatedImagePath :: string
  pv_imageWidth :: int
  pv_imageHeight :: int
  pv_detectionsCount :: nat
  pv_detections :: "paged_detection list"

record metadata =
  totalPages :: nat
  totalDetections :: nat
  processingTime :: rat
  averageTimePerPage :: "rat option"
  confidence_threshold :: rat
  processedAt :: string
  pdfPath :: string
  elementTypeCounts :: "(string \<times> nat) list"

text \<open>
  A row of \<^verbatim>\<open>detections_summary.csv\<close> (line 631), as its eleven values in column order:
  page, label, confidence, the four box coordinates, width, height, area, reading order.
\<close>

type_synonym csv_row = "int \<times> string \<times> rat \<times> int \<times> int \<times> int \<times> int \<times> int \<times> int \<times> int \<times> int"

definition csv_row_of :: "enriched_detection \<Rightarrow> csv_row" where
  "csv_row_of det =
     (pageNumber det, label det, confidence det, bbox det ! 0, bbox det ! 1, bbox det ! 2,
      bbox det ! 3, width det, height det, area det, reading_order det)"

record json_output =
  json_metadata :: metadata
  documentStructure :: "nat list \<times> heap"
  allDetections :: "enriched_detection list"
  pages :: "page_view list"
  ocrProcessingSuggestions :: ocr_suggestions
  csvRows :: "csv_row list"

text \<open>
  The clock and the command line: \<^verbatim>\<open>new Date().toISOString()\<close> and \<^verbatim>\<open>PDF_PATH\<close>.
\<close>

record run_env =
  env_now :: string
  env_PDF_PATH :: string

definition saveBoundingBoxesToJson :: "run_env \<Rightarrow> page_result list \<Rightarrow> rat \<Rightarrow> json_output" where
  \<comment> \<open>The object \<^verbatim>\<open>jsonOutput\<close> and the CSV rows.  \<^verbatim>\<open>allDetections\<close> is read after
      \<^verbatim>\<open>buildDocumentHierarchy\<close> has sorted it in place; the arrays of \<^verbatim>\<open>elementsByType\<close>
      are other arrays and keep their order.\<close>
  "saveBoundingBoxesToJson env results totalTime =
     (let (elementsByType, allDetections0) = collect_results results;
          built = buildDocumentHierarchy allDetections0;
          allDetections1 = br_detections built
      in \<lparr> json_metadata =
             \<lparr> totalPages = length results,
               totalDetections = length allDetections1,
               processingTime = totalTime,
               averageTimePerPage =
                 map_option (toFixed 2) (js_div totalTime (of_nat (length results))),
               confidence_threshold = CONFIDENCE_THRESHOLD,
               processedAt = env_now env,
               pdfPath = env_PDF_PATH env,
               elementTypeCounts = map (\<lambda>(type, ds). (type, length ds)) elementsByType \<rparr>,
           documentStructure = (br_hierarchy built, br_heap built),
           allDetections = allDetections1,
           pages =
             map (\<lambda>pageResult.
                    \<lparr> pv_pageNumber = pr_pageNumber pageResult,
                      pv_processingTime = pr_processingTime pageResult,
                      pv_sourceImagePath = pr_sourceImagePath pageResult,
                      pv_annotatedImagePath = pr_annotatedPath pageResult,
                      pv_imageWidth = pr_imageWidth pageResult,
                      pv_imageHeight = pr_imageHeight pageResult,
                      pv_detectionsCount = length (pr_detections pageResult),
                      pv_detections =
                        map (\<lambda>det. seq_detection.extend det
                                      (paged_detection.fields (pr_pageNumber pageResult)))
                          (pr_detections pageResult) \<rparr>)
               results,
           ocrProcessingSuggestions =
             \<lparr> textElements = map (suggest ''high'' None) (elements_of elementsByType ''Text''),
               titleElements = map (suggest ''highest'' None) (elements_of elementsByType ''Title''),
               tableElements =
                 map (suggest ''high''
                        (Some ''Use table-specific OCR for better structure recognition''))
                   (elements_of elementsByType ''Table''),
               listElements = map (suggest ''medium'' None) (elements_of elementsByType ''List-item'') \<rparr>,
           csvRows = map csv_row_of allDetections1 \<rparr>)"

section \<open>\<^verbatim>\<open>main\<close> (lines 748--928)\<close>

definition main_results ::
  "sort_engine \<Rightarrow> ocr \<Rightarrow> (string \<times> page_input) list \<Rightarrow> page_result list" where
  \<comment> \<open>The loop of lines 789--811: page \<open>i\<close> of the document is processed as page number
      \<open>i + 1\<close>.  Each image path comes with what the collaborators return for it.\<close>
  "main_results engine ex imagePages =
     map (\<lambda>(i, (imagePath, inp)). processPage engine ex inp imagePath (int i + 1))
       (zip [0 ..< length imagePages] imagePages)"

definition main ::
  "sort_engine \<Rightarrow> ocr \<Rightarrow> run_env \<Rightarrow> (string \<times> page_input) list \<Rightarrow> rat \<Rightarrow> json_output" where
  \<comment> \<open>A run in which every collaborator succeeds (a failure ends the process with no
      output, line 926); \<open>totalTime\<close> is the measured time of line 814.\<close>
  "main engine ex env imagePages totalTime =
     saveBoundingBoxesToJson env (main_results engine ex imagePages) totalTime"

section \<open>Notions for the statements and their proofs\<close>

definition rounded_to :: "nat \<Rightarrow> rat \<Rightarrow> rat \<Rightarrow> bool" where
  \<comment> \<open>\<open>r\<close> is \<open>x\<close> rounded to \<open>f\<close> decimal places: a multiple of \<open>10\<^sup>-\<^sup>f\<close> at most half a
      unit of the last place away from \<open>x\<close>.\<close>
  "rounded_to f x r =
     (r * 10 ^ f = of_int \<lfloor>r * 10 ^ f\<rfloor> \<and> \<bar>r - x\<bar> * (2 * 10 ^ f) \<le> 1)"

definition ocr_not_available :: "string \<Rightarrow> string" where
  \<comment> \<open>The placeholder of line 120, returned when no OCR worker runs.\<close>
  "ocr_not_available elementType = ''['' @ elementType @ '' content - OCR not available]''"

definition has_extracted_text :: "'a detection_scheme \<Rightarrow> bool" where
  \<comment> \<open>The filter of lines 802--805: the text is there and is none of the placeholders the
      run looks for.\<close>
  "has_extracted_text d =
     (extractedText d \<noteq> [] \<and> \<not> str_includes (extractedText d) ''OCR not available''
      \<and> \<not> str_includes (extractedText d) ''extraction failed'')"

definition scaled_bbox :: "page_input \<Rightarrow> prediction \<Rightarrow> int list" where
  \<comment> \<open>The box of lines 381--386 for a prediction.\<close>
  "scaled_bbox inp p =
     (case p of (xmin, ymin, xmax, ymax, score, cid) \<Rightarrow>
        [Math_round (double_of (xmin * scale_xs inp)),
         Math_round (double_of (ymin * scale_ys inp)),
         Math_round (double_of (xmax * scale_xs inp)),
         Math_round (double_of (ymax * scale_ys inp))])"

definition detection_with_box ::
  "ocr \<Rightarrow> string \<Rightarrow> int \<Rightarrow> page_input \<Rightarrow> nat \<Rightarrow> rat \<Rightarrow> rat \<Rightarrow> int list \<Rightarrow> detection" where
  \<comment> \<open>The object literal of lines 394--413 for a given box \<open>b\<close> (the array \<^verbatim>\<open>bbox\<close> of
      lines 381--386), score and class.\<close>
  "detection_with_box ex imagePath pageNo inp n score cid b =
     \<lparr> det_id = ''page'' @ string_of_int pageNo @ ''_detection'' @ string_of_nat (n + 1),
       bbox = b,
       bbox_normalized =
         [map_option (toFixed 4) (js_div (of_int (b ! 0)) (of_int (image_width inp))),
          map_option (toFixed 4) (js_div (of_int (b ! 1)) (of_int (image_height inp))),
          map_option (toFixed 4) (js_div (of_int (b ! 2)) (of_int (image_width inp))),
          map_option (toFixed 4) (js_div (of_int (b ! 3)) (of_int (image_height inp)))],
       label = (case id2label cid of Some l \<Rightarrow> l | None \<Rightarrow> ''Unknown''),
       confidence = toFixed 3 score,
       area = Math_round (of_int ((b ! 2 - b ! 0) * (b ! 3 - b ! 1))),
       center = [Math_round (of_int (b ! 0 + b ! 2) / 2), Math_round (of_int (b ! 1 + b ! 3) / 2)],
       width = Math_round (of_int (b ! 2 - b ! 0)),
       height = Math_round (of_int (b ! 3 - b ! 1)),
       extractedText = ex imagePath b (case id2label cid of Some l \<Rightarrow> l | None \<Rightarrow> ''Unknown'') \<rparr>"

definition page_extent :: "page_input \<Rightarrow> nat \<Rightarrow> int" where
  \<comment> \<open>The page dimension a box coordinate is divided by (lines 398--401): the width for the
      abscissae at indices 0 and 2, the height for the ordinates at 1 and 3.\<close>
  "page_extent inp i = (if even i then image_width inp else image_height inp)"

definition keeps :: "prediction \<Rightarrow> bool" where
  \<comment> \<open>A prediction survives line 379.\<close>
  "keeps p = (\<not> score_of p < CONFIDENCE_THRESHOLD)"

definition is_default_section :: "'c heading_node \<Rightarrow> bool" where
  \<comment> \<open>A default section is the node without a box (lines 729--735).\<close>
  "is_default_section n = (h_bbox n = None)"

definition level_at :: "heap \<Rightarrow> nat \<Rightarrow> int option" where
  \<comment> \<open>The level number of the node at an address, as the loop of lines 690--697 reads it.\<close>
  "level_at h a = level_number (h_level (h ! a))"

definition stack_levels :: "builder \<Rightarrow> int option list" where
  \<comment> \<open>The level numbers along the stack, bottom first.\<close>
  "stack_levels st = map (level_at (heap st)) (headingStack st)"

definition nested_in :: "heap \<Rightarrow> (nat \<times> nat) set" where
  \<comment> \<open>\<open>(a, c)\<close>: the heading at address \<open>c\<close> is in the \<^verbatim>\<open>children\<close> of the node at \<open>a\<close>.
      Nesting at any depth is the transitive closure.\<close>
  "nested_in h = {(a, c). a < length h \<and> Heading c \<in> set (h_children (h ! a))}"

definition has_content :: "heap \<Rightarrow> content_node \<Rightarrow> bool" where
  \<comment> \<open>The content node is in the \<^verbatim>\<open>children\<close> of some node.\<close>
  "has_content h c = (\<exists>a < length h. Content c \<in> set (h_children (h ! a)))"

definition node_fields ::
  "'c heading_node \<Rightarrow>
   string \<times> string \<times> string \<times> int \<times> int list option \<times> rat option list option \<times> rat option" where
  \<comment> \<open>A node without its \<^verbatim>\<open>children\<close>.\<close>
  "node_fields n =
     (h_id n, h_title n, h_level n, h_page n, h_bbox n, h_bbox_normalized n, h_confidence n)"

definition created_nodes :: "bool \<Rightarrow> enriched_detection \<Rightarrow> child heading_node list" where
  \<comment> \<open>The node a detection adds to the heap, as it is when added: its heading node; or,
      for content met with an empty stack, a default section; or none.\<close>
  "created_nodes stack_empty d =
     (case headingLevels (label d) of
        Some level \<Rightarrow> [headingNode_of level d]
      | None \<Rightarrow> if stack_empty then [defaultSection_of (pageNumber d) (contentNode_of d)] else [])"

definition nodes_of_run :: "enriched_detection list \<Rightarrow> child heading_node list" where
  \<comment> \<open>The nodes of a run in the order of their creation: the stack is empty for the first
      detection only.\<close>
  "nodes_of_run ds =
     (case ds of [] \<Rightarrow> [] | d # rest \<Rightarrow> created_nodes True d @ concat (map (created_nodes False) rest))"

definition detection_on :: "string \<Rightarrow> string \<Rightarrow> string \<Rightarrow> int \<Rightarrow> int \<Rightarrow> enriched_detection" where
  \<comment> \<open>An example detection with the given id, label, text, page and reading order, and a
      fixed box on a page of \<open>100 \<times> 100\<close> pixels.\<close>
  "detection_on i l t pg ro =
     \<lparr> det_id = i, bbox = [0, 0, 10, 10],
       bbox_normalized = [Some 0, Some 0, Some (1 / 10), Some (1 / 10)],
       label = l, confidence = 9 / 10, area = 100, center = [5, 5], width = 10, height = 10,
       extractedText = t, reading_order = ro, pageNumber = pg,
       sourceImagePath = ''page.png'', annotatedImagePath = ''page_annotated.png'',
       pageWidth = 100, pageHeight = 100 \<rparr>"

definition builder_inv :: "builder \<Rightarrow> bool" where
  \<comment> \<open>What every state of the builder satisfies: the stack holds addresses of the heap,
      every level parses, the levels grow strictly along the stack, and a heading in a
      node's \<^verbatim>\<open>children\<close> is in the heap with a larger level number than the node.\<close>
  "builder_inv st =
     ((\<forall>a \<in> set (headingStack st). a < length (heap st))
      \<and> (\<forall>a < length (heap st). level_at (heap st) a \<noteq> None)
      \<and> sorted_wrt js_lt (stack_levels st)
      \<and> (\<forall>a c. a < length (heap st) \<and> Heading c \<in> set (h_children (heap st ! a))
             \<longrightarrow> c < length (heap st) \<and> js_lt (level_at (heap st) a) (level_at (heap st) c)))"

section \<open>Sorting and the page loop\<close>

lemma mset_insort_cmp: "mset (insort_cmp cmp x xs) = add_mset x (mset xs)"
  by (induction xs) auto

lemma mset_js_sort: "mset (js_sort cmp xs) = mset xs"
  by (induction xs) (auto simp: js_sort_def mset_insort_cmp)

lemma length_js_sort: "length (js_sort cmp xs) = length xs"
  using mset_js_sort [of cmp xs] by (metis size_mset)

lemma set_js_sort: "set (js_sort cmp xs) = set xs"
  using mset_js_sort [of cmp xs] by (metis set_mset_mset)

lemma mset_array_sort: "mset (array_sort engine cmp xs) = mset xs"
  by (simp add: array_sort_def mset_js_sort)

lemma length_array_sort: "length (array_sort engine cmp xs) = length xs"
  using mset_array_sort [of engine cmp xs] by (metis size_mset)

lemma set_array_sort: "set (array_sort engine cmp xs) = set xs"
  using mset_array_sort [of engine cmp xs] by (metis set_mset_mset)

lemma insort_cmp_sorted:
  "\<forall>y \<in> set ys. cmp x y \<le> 0 \<Longrightarrow> insort_cmp cmp x ys = x # ys"
  by (cases ys) auto

lemma js_sort_sorted:
  "sorted_wrt (\<lambda>a b. cmp a b \<le> 0) xs \<Longrightarrow> js_sort cmp xs = xs"
proof (induction xs)
  case Nil
  show ?case by (simp add: js_sort_def)
next
  case (Cons x xs)
  then have "js_sort cmp xs = xs" and "\<forall>y \<in> set xs. cmp x y \<le> 0" by simp_all
  then show ?case by (simp add: js_sort_def insort_cmp_sorted)
qed

text \<open>
  The detection of a prediction is the object literal filled in for the scaled box.  As a
  code equation it has the box computed once, as the program does.
\<close>

lemma make_detection_code [code]:
  "make_detection ex imagePath pageNo inp n p =
     (case p of (xmin, ymin, xmax, ymax, score, cid) \<Rightarrow>
        detection_with_box ex imagePath pageNo inp n score cid (scaled_bbox inp p))"
  by (cases p) (simp add: make_detection_def detection_with_box_def scaled_bbox_def Let_def)

lemma collect_detections_map:
  assumes "\<And>k p. g (make_detection ex path n inp k p) = g' p"
  shows "map g (collect_detections ex path n inp ps acc) = map g acc @ map g' (filter keeps ps)"
  using assms by (induction ps arbitrary: acc) (auto simp: keeps_def)

lemma collect_detections_filter:
  "collect_detections ex path n inp (filter keeps ps) acc = collect_detections ex path n inp ps acc"
  by (induction ps arbitrary: acc) (auto simp: keeps_def)

lemma length_collect_detections:
  "length (collect_detections ex path n inp ps acc) = length acc + length (filter keeps ps)"
  by (induction ps arbitrary: acc) (auto simp: keeps_def)

lemma truncate_set_reading_order: "detection.truncate (set_reading_order d i) = d"
  by (simp add: set_reading_order_def detection.extend_def detection.truncate_def)

lemma reading_order_set_reading_order: "reading_order (set_reading_order d i) = int i + 1"
  by (simp add: set_reading_order_def detection.extend_def seq_detection.fields_def)

lemma map_truncate_add_reading_order: "map detection.truncate (add_reading_order ds) = ds"
  by (rule nth_equalityI) (simp_all add: add_reading_order_def truncate_set_reading_order)

lemma map_reading_order_add: "map reading_order (add_reading_order ds) = map (\<lambda>i. int i + 1) [0 ..< length ds]"
  by (rule nth_equalityI) (simp_all add: add_reading_order_def reading_order_set_reading_order)

lemma length_add_reading_order: "length (add_reading_order ds) = length ds"
  by (simp add: add_reading_order_def)

lemma pr_detections_processPage:
  "pr_detections (processPage engine ex inp path n) =
     add_reading_order (array_sort engine reading_cmp (collect_detections ex path n inp (predictions inp) []))"
  by (simp add: processPage_def Let_def)


lemma rounded_to_nonneg:
  assumes "0 \<le> (x::rat)"
  shows "rounded_to f x (of_int \<lfloor>x * 10 ^ f + 1 / 2\<rfloor> / 10 ^ f)"
proof -
  define y where "y = x * 10 ^ f"
  define k where "k = \<lfloor>y + 1 / 2\<rfloor>"
  have p: "(10::rat) ^ f > 0" by simp
  have k1: "of_int k \<le> y + 1 / 2" and k2: "y + 1 / 2 < of_int k + 1"
    unfolding k_def by linarith+
  have m: "of_int k / 10 ^ f * 10 ^ f = (of_int k :: rat)" using p by simp
  have "\<bar>of_int k / 10 ^ f - x\<bar> * (2 * 10 ^ f) = \<bar>(of_int k / 10 ^ f - x) * (2 * 10 ^ f)\<bar>"
    using p by (simp add: abs_mult)
  also have "(of_int k / 10 ^ f - x) * (2 * 10 ^ f) = 2 * (of_int k - y)"
    using p by (simp add: y_def field_simps)
  also have "\<bar>2 * (of_int k - y)\<bar> \<le> 1" using k1 k2 by (simp add: abs_le_iff)
  finally have d: "\<bar>of_int k / 10 ^ f - x\<bar> * (2 * 10 ^ f) \<le> 1" .
  show ?thesis unfolding rounded_to_def using m d by (simp add: k_def y_def)
qed

lemma rounded_to_uminus:
  assumes "rounded_to f x r"
  shows "rounded_to f (- x) (- r)"
proof -
  define m where "m = \<lfloor>r * 10 ^ f\<rfloor>"
  from assms have i: "r * 10 ^ f = of_int m" by (simp add: rounded_to_def m_def)
  then have j: "(- r) * 10 ^ f = of_int (- m)" by simp
  have "\<lfloor>(- r) * 10 ^ f\<rfloor> = - m" unfolding j by (rule floor_of_int)
  with j have "(- r) * 10 ^ f = of_int \<lfloor>(- r) * 10 ^ f\<rfloor>" by simp
  moreover have "\<bar>- r - - x\<bar> = \<bar>r - x\<bar>" by linarith
  ultimately show ?thesis using assms by (simp add: rounded_to_def)
qed

lemma rounded_to_toFixed: "rounded_to f x (toFixed f x)"
proof (cases "x < 0")
  case True
  then have "rounded_to f (- x) (of_int \<lfloor>(- x) * 10 ^ f + 1 / 2\<rfloor> / 10 ^ f)"
    by (intro rounded_to_nonneg) simp
  from rounded_to_uminus [OF this] True show ?thesis by (simp add: toFixed_def)
next
  case False
  then show ?thesis by (simp add: toFixed_def rounded_to_nonneg)
qed

text \<open>
  Claim C4.  On every page the \<^verbatim>\<open>reading_order\<close> values, read along the returned array,
  are \<open>1, 2, \<dots>, N\<close> with \<open>N\<close> the number of detections of the page, which is the number
  of predictions that passed the threshold; and the array without the numbers is the
  sorted array, so the numbers are given to the positions the finished sort produced.
\<close>

theorem C4_reading_order_contiguous:
  "map reading_order (pr_detections (processPage engine ex inp path n)) =
     map int [1 ..< Suc (length (pr_detections (processPage engine ex inp path n)))]
   \<and> length (pr_detections (processPage engine ex inp path n)) = length (filter keeps (predictions inp))
   \<and> map detection.truncate (pr_detections (processPage engine ex inp path n)) =
       array_sort engine reading_cmp (collect_detections ex path n inp (predictions inp) [])"
proof -
  let ?sorted = "array_sort engine reading_cmp (collect_detections ex path n inp (predictions inp) [])"
  have len: "length (pr_detections (processPage engine ex inp path n)) = length ?sorted"
    by (simp add: pr_detections_processPage length_add_reading_order)
  have "map reading_order (pr_detections (processPage engine ex inp path n)) =
          map (\<lambda>i. int i + 1) [0 ..< length ?sorted]"
    by (simp add: pr_detections_processPage map_reading_order_add)
  also have "\<dots> = map int (map Suc [0 ..< length ?sorted])" by simp
  also have "map Suc [0 ..< length ?sorted] = [1 ..< Suc (length ?sorted)]"
    by (simp only: map_Suc_upt One_nat_def)
  finally have a: "map reading_order (pr_detections (processPage engine ex inp path n)) =
     map int [1 ..< Suc (length (pr_detections (processPage engine ex inp path n)))]"
    by (simp only: len)
  have b: "length (pr_detections (processPage engine ex inp path n)) = length (filter keeps (predictions inp))"
    by (simp add: len length_array_sort length_collect_detections)
  have c: "map detection.truncate (pr_detections (processPage engine ex inp path n)) = ?sorted"
    by (simp add: pr_detections_processPage map_truncate_add_reading_order)
  from a b c show ?thesis by blast
qed

lemma Math_round_of_int: "Math_round (of_int k) = k"
  unfolding Math_round_def by (rule floor_unique) simp_all

lemma mset_processPage:
  assumes "\<And>k p. g (make_detection ex path n inp k p) = g' p"
  shows "mset (map (\<lambda>d. g (detection.truncate d)) (pr_detections (processPage engine ex inp path n))) =
     mset (map g' (filter keeps (predictions inp)))"
proof -
  let ?c = "collect_detections ex path n inp (predictions inp) []"
  have "map (\<lambda>d. g (detection.truncate d)) (pr_detections (processPage engine ex inp path n)) =
          map g (map detection.truncate (pr_detections (processPage engine ex inp path n)))"
    by simp
  also have "\<dots> = map g (array_sort engine reading_cmp ?c)"
    by (simp only: pr_detections_processPage map_truncate_add_reading_order)
  finally have "mset (map (\<lambda>d. g (detection.truncate d)) (pr_detections (processPage engine ex inp path n))) =
      image_mset g (mset (array_sort engine reading_cmp ?c))" by simp
  also have "\<dots> = mset (map g ?c)" by (simp add: mset_array_sort)
  also have "map g ?c = map g' (filter keeps (predictions inp))"
    using collect_detections_map [of g ex path n inp g' "predictions inp" "[]"] assms by simp
  finally show ?thesis .
qed

lemma confidence_make_detection:
  "confidence (make_detection ex path n inp k p) = toFixed 3 (score_of p)"
  by (cases p) (simp add: make_detection_def score_of_def Let_def)

lemma bbox_make_detection:
  "bbox (make_detection ex path n inp k p) = scaled_bbox inp p"
  by (cases p) (simp add: make_detection_def scaled_bbox_def Let_def)

lemma width_make_detection:
  "width (make_detection ex path n inp k p) = scaled_bbox inp p ! 2 - scaled_bbox inp p ! 0"
  by (cases p) (simp add: make_detection_def scaled_bbox_def Let_def Math_round_of_int del: of_int_diff of_int_mult)

lemma height_make_detection:
  "height (make_detection ex path n inp k p) = scaled_bbox inp p ! 3 - scaled_bbox inp p ! 1"
  by (cases p) (simp add: make_detection_def scaled_bbox_def Let_def Math_round_of_int del: of_int_diff of_int_mult)

lemma area_make_detection:
  "area (make_detection ex path n inp k p) =
     (scaled_bbox inp p ! 2 - scaled_bbox inp p ! 0) * (scaled_bbox inp p ! 3 - scaled_bbox inp p ! 1)"
  by (cases p) (simp add: make_detection_def scaled_bbox_def Let_def Math_round_of_int del: of_int_diff of_int_mult)

lemma bbox_normalized_make_detection:
  "bbox_normalized (make_detection ex path n inp k p) =
     map (\<lambda>i. map_option (toFixed 4) (js_div (of_int (scaled_bbox inp p ! i)) (of_int (page_extent inp i))))
       [0, 1, 2, 3]"
  by (cases p) (simp add: make_detection_def scaled_bbox_def Let_def page_extent_def)

lemma in_collect_detections:
  "x \<in> set (collect_detections ex path n inp ps acc) \<Longrightarrow>
     x \<in> set acc \<or> (\<exists>k p. p \<in> set ps \<and> keeps p \<and> x = make_detection ex path n inp k p)"
proof (induction ps arbitrary: acc)
  case Nil
  then show ?case by simp
next
  case (Cons q ps)
  show ?case
  proof (cases "keeps q")
    case False
    with Cons.prems have "x \<in> set (collect_detections ex path n inp ps acc)"
      by (simp add: keeps_def)
    from Cons.IH [OF this] show ?thesis
    proof
      assume "x \<in> set acc"
      then show ?thesis ..
    next
      assume "\<exists>k p. p \<in> set ps \<and> keeps p \<and> x = make_detection ex path n inp k p"
      then obtain k p where "p \<in> set ps" "keeps p" "x = make_detection ex path n inp k p"
        by blast
      then have "p \<in> set (q # ps) \<and> keeps p \<and> x = make_detection ex path n inp k p" by simp
      then show ?thesis by blast
    qed
  next
    case True
    with Cons.prems have "x \<in> set (collect_detections ex path n inp ps
        (acc @ [make_detection ex path n inp (length acc) q]))"
      by (simp add: keeps_def)
    from Cons.IH [OF this] show ?thesis
    proof
      assume "x \<in> set (acc @ [make_detection ex path n inp (length acc) q])"
      then have "x \<in> set acc \<or> x = make_detection ex path n inp (length acc) q" by auto
      then show ?thesis
      proof
        assume "x \<in> set acc"
        then show ?thesis ..
      next
        assume "x = make_detection ex path n inp (length acc) q"
        with True have "q \<in> set (q # ps) \<and> keeps q \<and> x = make_detection ex path n inp (length acc) q"
          by simp
        then show ?thesis by blast
      qed
    next
      assume "\<exists>k p. p \<in> set ps \<and> keeps p \<and> x = make_detection ex path n inp k p"
      then obtain k p where "p \<in> set ps" "keeps p" "x = make_detection ex path n inp k p"
        by blast
      then have "p \<in> set (q # ps) \<and> keeps p \<and> x = make_detection ex path n inp k p" by simp
      then show ?thesis by blast
    qed
  qed
qed

lemma in_processPage:
  assumes "d \<in> set (pr_detections (processPage engine ex inp path n))"
  shows "\<exists>k p. p \<in> set (predictions inp) \<and> keeps p \<and>
           detection.truncate d = make_detection ex path n inp k p"
proof -
  from assms have "detection.truncate d \<in> set (map detection.truncate (pr_detections (processPage engine ex inp path n)))"
    by simp
  then have "detection.truncate d \<in> set (collect_detections ex path n inp (predictions inp) [])"
    by (simp only: pr_detections_processPage map_truncate_add_reading_order set_array_sort)
  from in_collect_detections [OF this] show ?thesis by simp
qed

text \<open>
  Claim C3 says that a prediction whose scaled box has a width or a height that is not
  positive, or whose page has zero dimensions, is dropped.  The code has no such test.
  With a score of \<open>0.9\<close>: a box of width 0 and a box of width \<open>-20\<close> and height 0 are both
  emitted; and on a page of size \<open>0 \<times> 0\<close> the detection is emitted with a box of zeros and
  non-finite normalised coordinates.
\<close>

theorem C3_degenerate_geometry_kept_counterexample:
  "map (\<lambda>d. (bbox d, width d, height d, area d))
     (pr_detections (processPage (\<lambda>cmp xs. xs) (\<lambda>p b l. ''text'')
        \<lparr>image_width = 100, image_height = 100, scale_xs = 1, scale_ys = 1,
         predictions = [(10, 10, 10, 50, 9 / 10, 9), (60, 10, 40, 10, 9 / 10, 9)],
         elapsed = 1\<rparr> ''page1.png'' 1))
     = [([10, 10, 10, 50], 0, 40, 0), ([60, 10, 40, 10], - 20, 0, 0)]
   \<and> map (\<lambda>d. (bbox d, bbox_normalized d, width d, height d))
     (pr_detections (processPage (\<lambda>cmp xs. xs) (\<lambda>p b l. ''text'')
        \<lparr>image_width = 0, image_height = 0, scale_xs = 0, scale_ys = 0,
         predictions = [(10, 10, 30, 50, 9 / 10, 9)], elapsed = 1\<rparr> ''page1.png'' 1))
     = [([0, 0, 0, 0], [None, None, None, None], 0, 0)]"
  by code_simp

text \<open>
  Claim C3, amended.  The Normalizer drops a prediction exactly when its score is below the
  threshold and for no other reason: the detections of a page carry, as a multiset, the
  rounded scaled boxes of all predictions with an adequate score, with
  \<open>width = xmax - xmin\<close> and \<open>height = ymax - ymin\<close> of that box, whatever their sign.
\<close>

theorem C3_only_the_score_filters:
  "mset (map (\<lambda>d. (bbox d, width d, height d)) (pr_detections (processPage engine ex inp path n))) =
     mset (map (\<lambda>p. (scaled_bbox inp p,
                      scaled_bbox inp p ! 2 - scaled_bbox inp p ! 0,
                      scaled_bbox inp p ! 3 - scaled_bbox inp p ! 1))
            (filter (\<lambda>p. \<not> score_of p < CONFIDENCE_THRESHOLD) (predictions inp)))"
proof -
  have "mset (map (\<lambda>d. (\<lambda>d. (bbox d, width d, height d)) (detection.truncate d))
          (pr_detections (processPage engine ex inp path n))) =
     mset (map (\<lambda>p. (scaled_bbox inp p,
                      scaled_bbox inp p ! 2 - scaled_bbox inp p ! 0,
                      scaled_bbox inp p ! 3 - scaled_bbox inp p ! 1))
            (filter keeps (predictions inp)))"
    by (rule mset_processPage)
       (simp add: bbox_make_detection width_make_detection height_make_detection)
  moreover have "keeps = (\<lambda>p. \<not> score_of p < CONFIDENCE_THRESHOLD)"
    by (simp add: keeps_def fun_eq_iff)
  ultimately show ?thesis by (simp add: detection.truncate_def)
qed

section \<open>The export and the run\<close>

lemma pageNumber_enrich: "pageNumber (enrich pr d) = pr_pageNumber pr"
  by (simp add: enrich_def seq_detection.extend_def paged_detection.extend_def
      paged_detection.fields_def)

lemma reading_order_enrich: "reading_order (enrich pr d) = reading_order d"
  by (simp add: enrich_def seq_detection.extend_def paged_detection.extend_def)

lemma confidence_enrich: "confidence (enrich pr d) = confidence d"
  by (simp add: enrich_def seq_detection.extend_def paged_detection.extend_def)

lemma truncate_enrich: "seq_detection.truncate (enrich pr d) = d"
  by (simp add: enrich_def seq_detection.extend_def paged_detection.extend_def
      seq_detection.truncate_def)

lemma snd_collect_page:
  "snd (collect_page acc pr) = snd acc @ map (enrich pr) (pr_detections pr)"
proof -
  have "snd (foldl (\<lambda>(elementsByType, allDetections) detection.
              let enrichedDetection = enrich pr detection
              in (group_push elementsByType (label detection) enrichedDetection,
                  allDetections @ [enrichedDetection])) acc ds) = snd acc @ map (enrich pr) ds"
    for ds
    by (induction ds arbitrary: acc) (auto simp: Let_def split: prod.splits)
  then show ?thesis by (simp add: collect_page_def)
qed

lemma snd_foldl_collect_page:
  "snd (foldl collect_page acc rs) =
     snd acc @ concat (map (\<lambda>pr. map (enrich pr) (pr_detections pr)) rs)"
  by (induction rs arbitrary: acc) (simp_all add: snd_collect_page)

lemma snd_collect_results:
  "snd (collect_results rs) = concat (map (\<lambda>pr. map (enrich pr) (pr_detections pr)) rs)"
  by (simp add: collect_results_def snd_foldl_collect_page)

lemma main_results_snoc:
  "main_results engine ex (ps @ [(path, inp)]) =
     main_results engine ex ps @ [processPage engine ex inp path (int (length ps) + 1)]"
  by (simp add: main_results_def)

lemma pr_pageNumber_processPage: "pr_pageNumber (processPage engine ex inp path n) = n"
  by (simp add: processPage_def Let_def)

lemma reading_order_nth_processPage:
  assumes "i < length (pr_detections (processPage engine ex inp path n))"
  shows "reading_order (pr_detections (processPage engine ex inp path n) ! i) = int i + 1"
proof -
  from assms have "i < length (array_sort engine reading_cmp (collect_detections ex path n inp (predictions inp) []))"
    by (simp add: pr_detections_processPage length_add_reading_order)
  then show ?thesis
    by (simp add: pr_detections_processPage add_reading_order_def reading_order_set_reading_order)
qed

lemma sorted_page:
  "sorted_wrt (\<lambda>a b. page_cmp a b \<le> 0)
     (map (enrich pr) (pr_detections (processPage engine ex inp path n)))"
  by (simp add: sorted_wrt_iff_nth_less page_cmp_def pageNumber_enrich reading_order_enrich
      reading_order_nth_processPage)

lemma sorted_all_detections:
  "sorted_wrt (\<lambda>a b. page_cmp a b \<le> 0)
     (concat (map (\<lambda>pr. map (enrich pr) (pr_detections pr)) (main_results engine ex ps)))
   \<and> (\<forall>e \<in> set (concat (map (\<lambda>pr. map (enrich pr) (pr_detections pr)) (main_results engine ex ps))).
         pageNumber e \<le> int (length ps))"
proof (induction ps rule: rev_induct)
  case Nil
  show ?case by (simp add: main_results_def)
next
  case (snoc x ps)
  obtain path inp where x: "x = (path, inp)" by (cases x)
  let ?pr = "processPage engine ex inp path (int (length ps) + 1)"
  let ?old = "concat (map (\<lambda>pr. map (enrich pr) (pr_detections pr)) (main_results engine ex ps))"
  let ?new = "map (enrich ?pr) (pr_detections ?pr)"
  have all: "concat (map (\<lambda>pr. map (enrich pr) (pr_detections pr)) (main_results engine ex (ps @ [x])))
      = ?old @ ?new"
    by (simp add: x main_results_snoc)
  have new_page: "\<forall>e \<in> set ?new. pageNumber e = int (length ps) + 1"
    by (auto simp: pageNumber_enrich pr_pageNumber_processPage)
  have cross: "\<forall>a \<in> set ?old. \<forall>b \<in> set ?new. page_cmp a b \<le> 0"
  proof (intro ballI)
    fix a b assume "a \<in> set ?old" "b \<in> set ?new"
    with snoc.IH new_page have "pageNumber a \<le> int (length ps)" "pageNumber b = int (length ps) + 1"
      by blast+
    then show "page_cmp a b \<le> 0" by (simp add: page_cmp_def)
  qed
  have "sorted_wrt (\<lambda>a b. page_cmp a b \<le> 0) (?old @ ?new)"
    using snoc.IH cross sorted_page [of ?pr engine ex inp path "int (length ps) + 1"]
    by (simp add: sorted_wrt_append)
  moreover have "\<forall>e \<in> set (?old @ ?new). pageNumber e \<le> int (length (ps @ [x]))"
    using snoc.IH new_page by fastforce
  ultimately show ?case by (simp only: all) 
qed

lemma br_detections_build: "br_detections (buildDocumentHierarchy ds) = js_sort page_cmp ds"
  by (simp add: buildDocumentHierarchy_def Let_def)

lemma allDetections_save:
  "allDetections (saveBoundingBoxesToJson env results totalTime) =
     js_sort page_cmp (snd (collect_results results))"
  by (simp add: saveBoundingBoxesToJson_def Let_def br_detections_build split: prod.splits)

lemma make_detection_predictions_update:
  "make_detection ex path n (inp\<lparr>predictions := q\<rparr>) k p = make_detection ex path n inp k p"
  by (cases p) (simp add: make_detection_def)

lemma collect_detections_predictions_update:
  "collect_detections ex path n (inp\<lparr>predictions := q\<rparr>) ps acc =
     collect_detections ex path n inp ps acc"
  by (induction ps arbitrary: acc) (simp_all add: make_detection_predictions_update)

lemma processPage_filter:
  "processPage engine ex (inp\<lparr>predictions := filter keeps (predictions inp)\<rparr>) path n =
     processPage engine ex inp path n"
  by (simp add: processPage_def collect_detections_predictions_update collect_detections_filter)

lemma main_results_filter:
  "main_results engine ex
     (map (\<lambda>(imagePath, inp). (imagePath, inp\<lparr>predictions := filter keeps (predictions inp)\<rparr>)) ps) =
   main_results engine ex ps"
  by (induction ps rule: rev_induct)
     (simp_all add: main_results_def processPage_filter split: prod.splits)

lemma toFixed_threshold:
  assumes "CONFIDENCE_THRESHOLD \<le> s"
  shows "CONFIDENCE_THRESHOLD \<le> toFixed 3 s"
proof -
  from assms have s: "1 / 2 \<le> s" by (simp add: CONFIDENCE_THRESHOLD_def)
  then have "(500::rat) \<le> s * 10 ^ 3" by simp
  then have "of_int 500 \<le> s * 10 ^ 3 + 1 / 2" by simp
  then have "500 \<le> \<lfloor>s * 10 ^ 3 + 1 / 2\<rfloor>" by (simp only: le_floor_iff)
  then have "(500::rat) \<le> of_int \<lfloor>s * 10 ^ 3 + 1 / 2\<rfloor>" by linarith
  then have "(1 / 2 :: rat) \<le> of_int \<lfloor>s * 10 ^ 3 + 1 / 2\<rfloor> / 10 ^ 3" by simp
  with s show ?thesis by (simp add: toFixed_def CONFIDENCE_THRESHOLD_def)
qed

lemma confidence_processPage:
  assumes "d \<in> set (pr_detections (processPage engine ex inp path n))"
  shows "CONFIDENCE_THRESHOLD \<le> confidence d"
proof -
  from in_processPage [OF assms] obtain k p
    where p: "keeps p" and t: "detection.truncate d = make_detection ex path n inp k p"
    by blast
  have "confidence d = confidence (detection.truncate d)" by (simp add: detection.truncate_def)
  also have "\<dots> = toFixed 3 (score_of p)" by (simp only: t confidence_make_detection)
  finally show ?thesis using p by (simp add: keeps_def toFixed_threshold)
qed

lemma in_main_results:
  "pr \<in> set (main_results engine ex ps) \<Longrightarrow> \<exists>inp path n. pr = processPage engine ex inp path n"
  by (auto simp: main_results_def)

lemma length_all_detections:
  "length (concat (map (\<lambda>pr. map (enrich pr) (pr_detections pr)) (main_results engine ex ps))) =
     (\<Sum>(imagePath, inp) \<leftarrow> ps. length (filter keeps (predictions inp)))"
proof (induction ps rule: rev_induct)
  case Nil
  show ?case by (simp add: main_results_def)
next
  case (snoc x ps)
  obtain path inp where x: "x = (path, inp)" by (cases x)
  have "length (pr_detections (processPage engine ex inp path (int (length ps) + 1))) =
      length (filter keeps (predictions inp))"
    by (simp add: pr_detections_processPage length_add_reading_order length_array_sort
        length_collect_detections)
  with snoc.IH show ?case by (simp add: x main_results_snoc)
qed

text \<open>
  Claim C6.  Only predictions whose score is not below the threshold survive, and a
  prediction below it is in no output view: deleting every such prediction from the
  detector's output leaves the whole output (metadata, \<^verbatim>\<open>documentStructure\<close>,
  \<^verbatim>\<open>allDetections\<close>, \<^verbatim>\<open>pages\<close>, \<^verbatim>\<open>ocrProcessingSuggestions\<close>, CSV rows) as it is; the flat
  view has exactly one detection for each prediction at or above the threshold; and every
  detection in it has a confidence at or above the threshold.
\<close>

theorem C6_below_threshold_in_no_view:
  "main engine ex env imagePages totalTime =
     main engine ex env
       (map (\<lambda>(imagePath, inp).
               (imagePath,
                inp\<lparr>predictions := filter (\<lambda>p. \<not> score_of p < CONFIDENCE_THRESHOLD) (predictions inp)\<rparr>))
          imagePages)
       totalTime
   \<and> length (allDetections (main engine ex env imagePages totalTime)) =
       (\<Sum>(imagePath, inp) \<leftarrow> imagePages.
           length (filter (\<lambda>p. \<not> score_of p < CONFIDENCE_THRESHOLD) (predictions inp)))
   \<and> (\<forall>d \<in> set (allDetections (main engine ex env imagePages totalTime)).
         CONFIDENCE_THRESHOLD \<le> confidence d)"
proof -
  have k: "(\<lambda>p. \<not> score_of p < CONFIDENCE_THRESHOLD) = keeps"
    by (simp add: keeps_def fun_eq_iff)
  have a: "main engine ex env imagePages totalTime =
     main engine ex env
       (map (\<lambda>(imagePath, inp). (imagePath, inp\<lparr>predictions := filter keeps (predictions inp)\<rparr>))
          imagePages) totalTime"
    by (simp add: main_def main_results_filter)
  have all: "allDetections (main engine ex env imagePages totalTime) =
      js_sort page_cmp (concat (map (\<lambda>pr. map (enrich pr) (pr_detections pr)) (main_results engine ex imagePages)))"
    by (simp add: main_def allDetections_save snd_collect_results)
  have b: "length (allDetections (main engine ex env imagePages totalTime)) =
       (\<Sum>(imagePath, inp) \<leftarrow> imagePages. length (filter keeps (predictions inp)))"
    by (simp only: all length_js_sort length_all_detections)
  have c: "\<forall>d \<in> set (allDetections (main engine ex env imagePages totalTime)).
         CONFIDENCE_THRESHOLD \<le> confidence d"
  proof
    fix d assume "d \<in> set (allDetections (main engine ex env imagePages totalTime))"
    then obtain pr e where pr: "pr \<in> set (main_results engine ex imagePages)"
      and e: "e \<in> set (pr_detections pr)" and d: "d = enrich pr e"
      by (auto simp: all set_js_sort)
    from in_main_results [OF pr] e have "CONFIDENCE_THRESHOLD \<le> confidence e"
      by (auto simp: confidence_processPage)
    then show "CONFIDENCE_THRESHOLD \<le> confidence d" by (simp add: d confidence_enrich)
  qed
  from a b c show ?thesis unfolding k by blast
qed

text \<open>
  The theorem at a page with a prediction of score \<open>0.49\<close> and one of score \<open>0.9\<close>: the
  output is that of the page with the second prediction alone.
\<close>

theorem C6_below_threshold_in_no_view_witness:
  "main (\<lambda>cmp xs. xs) (\<lambda>p b l. ''text'') \<lparr>env_now = ''now'', env_PDF_PATH = ''doc.pdf''\<rparr>
     [(''page1.png'',
       \<lparr>image_width = 300, image_height = 700, scale_xs = 1, scale_ys = 1,
        predictions = [(10, 20, 100, 40, 49 / 100, 9), (10, 60, 100, 90, 9 / 10, 10)],
        elapsed = 1\<rparr>)] 3 =
   main (\<lambda>cmp xs. xs) (\<lambda>p b l. ''text'') \<lparr>env_now = ''now'', env_PDF_PATH = ''doc.pdf''\<rparr>
     [(''page1.png'',
       \<lparr>image_width = 300, image_height = 700, scale_xs = 1, scale_ys = 1,
        predictions = [(10, 60, 100, 90, 9 / 10, 10)], elapsed = 1\<rparr>)] 3
   \<and> length (allDetections
       (main (\<lambda>cmp xs. xs) (\<lambda>p b l. ''text'') \<lparr>env_now = ''now'', env_PDF_PATH = ''doc.pdf''\<rparr>
         [(''page1.png'',
           \<lparr>image_width = 300, image_height = 700, scale_xs = 1, scale_ys = 1,
            predictions = [(10, 20, 100, 40, 49 / 100, 9), (10, 60, 100, 90, 9 / 10, 10)],
            elapsed = 1\<rparr>)] 3)) = 1
   \<and> CONFIDENCE_THRESHOLD \<le> confidence (hd (allDetections
       (main (\<lambda>cmp xs. xs) (\<lambda>p b l. ''text'') \<lparr>env_now = ''now'', env_PDF_PATH = ''doc.pdf''\<rparr>
         [(''page1.png'',
           \<lparr>image_width = 300, image_height = 700, scale_xs = 1, scale_ys = 1,
            predictions = [(10, 20, 100, 40, 49 / 100, 9), (10, 60, 100, 90, 9 / 10, 10)],
            elapsed = 1\<rparr>)] 3)))"
proof -
  let ?eng = "\<lambda>(cmp :: detection \<Rightarrow> detection \<Rightarrow> int) (xs :: detection list). xs"
  let ?ex = "\<lambda>p b l. ''text''"
  let ?env = "\<lparr>env_now = ''now'', env_PDF_PATH = ''doc.pdf''\<rparr>"
  let ?pages = "[(''page1.png'',
       \<lparr>image_width = 300, image_height = 700, scale_xs = 1, scale_ys = 1,
        predictions = [(10, 20, 100, 40, 49 / 100, 9), (10, 60, 100, 90, 9 / 10, 10)],
        elapsed = 1\<rparr>)]"
  let ?all = "allDetections (main ?eng ?ex ?env ?pages 3)"
  have f: "map (\<lambda>(imagePath, inp).
               (imagePath,
                inp\<lparr>predictions := filter (\<lambda>p. \<not> score_of p < CONFIDENCE_THRESHOLD) (predictions inp)\<rparr>))
          ?pages =
       [(''page1.png'',
       \<lparr>image_width = 300, image_height = 700, scale_xs = 1, scale_ys = 1,
        predictions = [(10, 60, 100, 90, 9 / 10, 10)], elapsed = 1\<rparr>)]"
    by (simp add: score_of_def CONFIDENCE_THRESHOLD_def)
  have n: "(\<Sum>(imagePath, inp) \<leftarrow> ?pages.
           length (filter (\<lambda>p. \<not> score_of p < CONFIDENCE_THRESHOLD) (predictions inp))) = 1"
    by (simp add: score_of_def CONFIDENCE_THRESHOLD_def)
  note c6 = C6_below_threshold_in_no_view [of ?eng ?ex ?env ?pages 3]
  from c6 have a: "main ?eng ?ex ?env ?pages 3 =
     main ?eng ?ex ?env [(''page1.png'',
       \<lparr>image_width = 300, image_height = 700, scale_xs = 1, scale_ys = 1,
        predictions = [(10, 60, 100, 90, 9 / 10, 10)], elapsed = 1\<rparr>)] 3"
    unfolding f by blast
  from c6 have b: "length ?all = 1" unfolding n by blast
  then have "hd ?all \<in> set ?all" by (cases ?all) simp_all
  with c6 have "CONFIDENCE_THRESHOLD \<le> confidence (hd ?all)" by blast
  with a b show ?thesis by blast
qed

section \<open>The hierarchy builder\<close>

lemma level_number_H: 
  "level_number ''H1'' = Some 1" "level_number ''H2'' = Some 2"
  "level_number ''H3'' = Some 3" "level_number ''H4'' = Some 4"
  by code_simp+

lemma headingLevels_level:
  "headingLevels l = Some level \<Longrightarrow> level_number level \<noteq> None"
  by (auto simp: headingLevels_def level_number_H split: if_splits)

lemma length_push_child: "length (push_child h a c) = length h"
  by (simp add: push_child_def)

lemma node_fields_push_child: "node_fields (push_child h a c ! b) = node_fields (h ! b)"
proof (cases "b = a \<and> a < length h")
  case True
  then show ?thesis by (cases "h ! a") (simp add: push_child_def node_fields_def)
next
  case False
  then show ?thesis by (cases "a < length h") (auto simp: push_child_def list_update_beyond)
qed

lemma map_node_fields_push_child: "map node_fields (push_child h a c) = map node_fields h"
  by (rule nth_equalityI) (simp_all add: length_push_child node_fields_push_child)

lemma level_at_push_child: "level_at (push_child h a c) b = level_at h b"
  using node_fields_push_child [of h a c b] by (simp add: level_at_def node_fields_def)

lemma children_push_child:
  "h_children (push_child h a c ! b) =
     (if b = a \<and> a < length h then h_children (h ! a) @ [c] else h_children (h ! b))"
proof (cases "b = a \<and> a < length h")
  case True
  then show ?thesis by (cases "h ! a") (simp add: push_child_def)
next
  case False
  then show ?thesis by (cases "a < length h") (auto simp: push_child_def list_update_beyond)
qed

lemma pop_headings_Nil: "pop_headings h L [] = []"
  by (simp add: pop_headings.simps)

lemma pop_headings_snoc:
  "pop_headings h L (s @ [a]) = (if js_ge (level_at h a) L then pop_headings h L s else s @ [a])"
  by (subst pop_headings.simps) (simp add: level_at_def)

lemma pop_headings_filter:
  assumes "sorted_wrt js_lt (map (level_at h) s)" and "\<forall>a \<in> set s. level_at h a \<noteq> None"
    and "L \<noteq> None"
  shows "pop_headings h L s = filter (\<lambda>a. js_lt (level_at h a) L) s"
  using assms(1,2)
proof (induction s rule: rev_induct)
  case Nil
  show ?case by (simp add: pop_headings_Nil)
next
  case (snoc a s)
  from snoc.prems have srt: "sorted_wrt js_lt (map (level_at h) s)"
    and below: "\<forall>b \<in> set s. js_lt (level_at h b) (level_at h a)"
    and some: "\<forall>b \<in> set s. level_at h b \<noteq> None"
    by (simp_all add: sorted_wrt_append)
  from snoc.prems(2) obtain x where x: "level_at h a = Some x" by auto
  from assms(3) obtain l where l: "L = Some l" by auto
  show ?case
  proof (cases "js_ge (level_at h a) L")
    case True
    then have "\<not> js_lt (level_at h a) L" by (simp add: x l js_ge_def js_lt_def)
    with True snoc.IH [OF srt some] show ?thesis by (simp add: pop_headings_snoc)
  next
    case False
    then have lt: "x < l" by (simp add: x l js_ge_def)
    have "\<forall>b \<in> set s. js_lt (level_at h b) L"
    proof
      fix b assume "b \<in> set s"
      with below have "js_lt (level_at h b) (Some x)" by (simp add: x)
      with lt show "js_lt (level_at h b) L" by (auto simp: l js_lt_def split: option.splits)
    qed
    then have "filter (\<lambda>a. js_lt (level_at h a) L) s = s" by simp
    with False lt show ?thesis by (simp add: pop_headings_snoc x l js_lt_def)
  qed
qed

lemma stack_nonempty_step: "headingStack (process_detection st d) \<noteq> []"
  by (simp add: process_detection_def Let_def split: option.splits)

lemma run_builder_snoc: "run_builder (ds @ [d]) = process_detection (run_builder ds) d"
  by (simp add: run_builder_def)

lemma stack_nonempty_run: "ds \<noteq> [] \<Longrightarrow> headingStack (run_builder ds) \<noteq> []"
  by (cases ds rule: rev_cases) (simp_all add: run_builder_snoc stack_nonempty_step)

lemma step_heading:
  assumes "headingLevels (label d) = Some level"
  shows "process_detection st d =
     (let stack = pop_headings (heap st) (level_number level) (headingStack st);
          h = heap st @ [headingNode_of level d]
      in \<lparr> heap = (if stack = [] then h else push_child h (last stack) (Heading (length (heap st)))),
           hierarchy = (if stack = [] then hierarchy st @ [length (heap st)] else hierarchy st),
           headingStack = stack @ [length (heap st)] \<rparr>)"
  using assms by (simp add: process_detection_def Let_def)

lemma step_content_empty:
  assumes "headingLevels (label d) = None" and "headingStack st = []"
  shows "process_detection st d =
     \<lparr> heap = heap st @ [defaultSection_of (pageNumber d) (contentNode_of d)],
       hierarchy = hierarchy st @ [length (heap st)],
       headingStack = [length (heap st)] \<rparr>"
  using assms by (simp add: process_detection_def Let_def)

lemma step_content_nonempty:
  assumes "headingLevels (label d) = None" and "headingStack st \<noteq> []"
  shows "process_detection st d =
     \<lparr> heap = push_child (heap st) (last (headingStack st)) (Content (contentNode_of d)),
       hierarchy = hierarchy st,
       headingStack = headingStack st \<rparr>"
  using assms by (simp add: process_detection_def Let_def)

lemma js_lt_trans: "js_lt x y \<Longrightarrow> js_lt y z \<Longrightarrow> js_lt x z"
  by (auto simp: js_lt_def split: option.splits)

lemma level_at_append_old: "b < length h \<Longrightarrow> level_at (h @ [n]) b = level_at h b"
  by (simp add: level_at_def nth_append)

lemma level_at_append_new: "level_at (h @ [n]) (length h) = level_number (h_level n)"
  by (simp add: level_at_def)

lemma level_at_push_child_fun: "level_at (push_child h a c) = level_at h"
  by (rule ext) (rule level_at_push_child)

lemma pop_headings_inv:
  assumes "builder_inv st" and "L \<noteq> None"
  shows "pop_headings (heap st) L (headingStack st) =
     filter (\<lambda>a. js_lt (level_at (heap st) a) L) (headingStack st)"
  using assms by (intro pop_headings_filter) (auto simp: builder_inv_def stack_levels_def)

lemma inv_heading:
  assumes inv: "builder_inv st" and lev: "headingLevels (label d) = Some level"
  shows "builder_inv (process_detection st d)"
proof -
  let ?h = "heap st" and ?s = "headingStack st" and ?L = "level_number level"
  let ?a = "length ?h"
  define s' where "s' = filter (\<lambda>a. js_lt (level_at ?h a) ?L) ?s"
  define h' where "h' = (if s' = [] then ?h @ [headingNode_of level d]
     else push_child (?h @ [headingNode_of level d]) (last s') (Heading ?a))"
  from lev have L: "?L \<noteq> None" by (rule headingLevels_level)
  have st': "process_detection st d =
      \<lparr> heap = h', hierarchy = (if s' = [] then hierarchy st @ [?a] else hierarchy st),
        headingStack = s' @ [?a] \<rparr>"
    by (simp add: step_heading [OF lev] pop_headings_inv [OF inv L] Let_def s'_def h'_def)
  from inv have i1: "\<forall>a \<in> set ?s. a < ?a"
    and i2: "\<forall>a < ?a. level_at ?h a \<noteq> None"
    and i3: "sorted_wrt js_lt (map (level_at ?h) ?s)"
    and i4: "\<forall>a c. a < ?a \<and> Heading c \<in> set (h_children (?h ! a))
               \<longrightarrow> c < ?a \<and> js_lt (level_at ?h a) (level_at ?h c)"
    by (simp_all add: builder_inv_def stack_levels_def)
  have s'1: "\<forall>a \<in> set s'. a < ?a" using i1 by (simp add: s'_def)
  have s'2: "\<forall>a \<in> set s'. js_lt (level_at ?h a) ?L" by (simp add: s'_def)
  have s'3: "sorted_wrt js_lt (map (level_at ?h) s')"
    using i3 by (simp add: s'_def sorted_wrt_map sorted_wrt_filter)
  have len: "length h' = Suc ?a" by (simp add: h'_def length_push_child)
  have lv_old: "level_at h' b = level_at ?h b" if "b < ?a" for b
    using that by (simp add: h'_def level_at_push_child level_at_append_old)
  have lv_new: "level_at h' ?a = ?L"
    by (simp add: h'_def level_at_push_child level_at_append_new headingNode_of_def)
  have last_in: "last s' \<in> set s'" if "s' \<noteq> []" using that by (rule last_in_set)
  have ch_new: "h_children (h' ! ?a) = []"
  proof (cases "s' = []")
    case True
    then show ?thesis by (simp add: h'_def headingNode_of_def)
  next
    case False
    from last_in [OF False] s'1 have "?a \<noteq> last s'" by auto
    with False show ?thesis by (simp add: h'_def children_push_child headingNode_of_def)
  qed
  have ch_old: "h_children (h' ! b) =
      (if s' \<noteq> [] \<and> b = last s' then h_children (?h ! b) @ [Heading ?a] else h_children (?h ! b))"
    if "b < ?a" for b
    using that by (auto simp: h'_def children_push_child nth_append)
  have c1: "\<forall>a \<in> set (s' @ [?a]). a < length h'"
    using s'1 by (auto simp: len)
  have c2: "\<forall>a < length h'. level_at h' a \<noteq> None"
    using i2 L lv_old lv_new by (auto simp: len less_Suc_eq)
  have m: "map (level_at h') s' = map (level_at ?h) s'"
    using s'1 lv_old by (intro map_cong) auto
  have c3: "sorted_wrt js_lt (map (level_at h') (s' @ [?a]))"
    unfolding map_append m using s'2 s'3 by (simp add: lv_new sorted_wrt_append)
  have c4: "\<forall>a c. a < length h' \<and> Heading c \<in> set (h_children (h' ! a))
               \<longrightarrow> c < length h' \<and> js_lt (level_at h' a) (level_at h' c)"
  proof (intro allI impI, elim conjE)
    fix b c assume b: "b < length h'" and c: "Heading c \<in> set (h_children (h' ! b))"
    from b c ch_new have b': "b < ?a" by (auto simp: len less_Suc_eq)
    show "c < length h' \<and> js_lt (level_at h' b) (level_at h' c)"
    proof (cases "Heading c \<in> set (h_children (?h ! b))")
      case True
      with i4 b' have "c < ?a" and "js_lt (level_at ?h b) (level_at ?h c)" by blast+
      with b' show ?thesis by (simp add: len lv_old)
    next
      case False
      with c ch_old [OF b'] have ne: "s' \<noteq> []" and bl: "b = last s'" and ca: "c = ?a"
        by (auto split: if_splits)
      from last_in [OF ne] s'2 have "js_lt (level_at ?h b) ?L" by (simp add: bl)
      then show ?thesis by (simp add: ca len lv_new lv_old [OF b'])
    qed
  qed
  from c1 c2 c3 c4 show ?thesis
    unfolding st' builder_inv_def stack_levels_def by simp
qed

lemma inv_content:
  assumes inv: "builder_inv st" and lev: "headingLevels (label d) = None"
  shows "builder_inv (process_detection st d)"
proof (cases "headingStack st = []")
  case True
  let ?h = "heap st"
  let ?n = "defaultSection_of (pageNumber d) (contentNode_of d)"
  from inv have i2: "\<forall>a < length ?h. level_at ?h a \<noteq> None"
    and i4: "\<forall>a c. a < length ?h \<and> Heading c \<in> set (h_children (?h ! a))
               \<longrightarrow> c < length ?h \<and> js_lt (level_at ?h a) (level_at ?h c)"
    by (simp_all add: builder_inv_def)
  have n: "level_at (?h @ [?n]) (length ?h) = Some 1" "h_children ?n = [Content (contentNode_of d)]"
    by (simp_all add: level_at_append_new defaultSection_of_def level_number_H)
  have c2: "\<forall>a < Suc (length ?h). level_at (?h @ [?n]) a \<noteq> None"
    using i2 n(1) by (auto simp: less_Suc_eq level_at_append_old)
  have c4: "\<forall>a c. a < Suc (length ?h) \<and> Heading c \<in> set (h_children ((?h @ [?n]) ! a))
               \<longrightarrow> c < Suc (length ?h) \<and> js_lt (level_at (?h @ [?n]) a) (level_at (?h @ [?n]) c)"
  proof (intro allI impI, elim conjE)
    fix a c assume a: "a < Suc (length ?h)" and c: "Heading c \<in> set (h_children ((?h @ [?n]) ! a))"
    from a c n(2) have a': "a < length ?h" by (auto simp: less_Suc_eq)
    with c have "Heading c \<in> set (h_children (?h ! a))" by (simp add: nth_append)
    with i4 a' have "c < length ?h" and "js_lt (level_at ?h a) (level_at ?h c)" by blast+
    with a' show "c < Suc (length ?h) \<and> js_lt (level_at (?h @ [?n]) a) (level_at (?h @ [?n]) c)"
      by (simp add: level_at_append_old)
  qed
  from c2 c4 show ?thesis
    unfolding step_content_empty [OF lev True] builder_inv_def stack_levels_def by simp
next
  case False
  let ?h = "heap st"
  let ?h' = "push_child ?h (last (headingStack st)) (Content (contentNode_of d))"
  have "Heading c \<in> set (h_children (?h' ! a)) \<longleftrightarrow> Heading c \<in> set (h_children (?h ! a))" for a c
    by (simp add: children_push_child)
  with inv show ?thesis
    unfolding step_content_nonempty [OF lev False] builder_inv_def stack_levels_def
    by (simp add: length_push_child level_at_push_child_fun)
qed

lemma inv_step: "builder_inv st \<Longrightarrow> builder_inv (process_detection st d)"
  by (cases "headingLevels (label d)") (simp_all add: inv_content inv_heading)

lemma inv_init: "builder_inv init_builder"
  by (simp add: builder_inv_def init_builder_def stack_levels_def)

lemma inv_run: "builder_inv (run_builder ds)"
  by (induction ds rule: rev_induct) (simp_all add: run_builder_snoc inv_step, simp add: run_builder_def inv_init)

lemma nested_levels:
  assumes "builder_inv st" and "(a, c) \<in> (nested_in (heap st))\<^sup>+"
  shows "js_lt (level_at (heap st) a) (level_at (heap st) c)"
  using assms(2)
proof (induction rule: trancl_induct)
  case (base c)
  with assms(1) show ?case by (simp add: nested_in_def builder_inv_def)
next
  case (step b c)
  from step.hyps(2) assms(1) have "js_lt (level_at (heap st) b) (level_at (heap st) c)"
    by (simp add: nested_in_def builder_inv_def)
  with step.IH show ?case by (rule js_lt_trans)
qed

lemma fields_step:
  "map node_fields (heap (process_detection st d)) =
     map node_fields (heap st) @ map node_fields (created_nodes (headingStack st = []) d)"
proof (cases "headingLevels (label d)")
  case None
  then show ?thesis
    by (cases "headingStack st = []")
       (simp_all add: step_content_empty step_content_nonempty created_nodes_def
         map_node_fields_push_child)
next
  case (Some level)
  then show ?thesis
    by (simp add: step_heading Let_def created_nodes_def map_node_fields_push_child)
qed

lemma nodes_of_run_snoc:
  "nodes_of_run (xs @ [x]) = nodes_of_run xs @ created_nodes (xs = []) x"
  by (cases xs) (simp_all add: nodes_of_run_def)

lemma fields_run: "map node_fields (heap (run_builder ds)) = map node_fields (nodes_of_run ds)"
proof (induction ds rule: rev_induct)
  case Nil
  show ?case by (simp add: run_builder_def init_builder_def nodes_of_run_def)
next
  case (snoc x xs)
  have "(headingStack (run_builder xs) = []) = (xs = [])"
    using stack_nonempty_run [of xs] by (auto simp: run_builder_def init_builder_def)
  with snoc.IH show ?case
    by (simp add: run_builder_snoc fields_step nodes_of_run_snoc)
qed

lemma filter_default_created_False:
  "filter is_default_section (concat (map (created_nodes False) ds)) = []"
  by (induction ds)
     (auto simp: created_nodes_def is_default_section_def headingNode_of_def split: option.splits)

lemma filter_default_nodes_of_run:
  "filter is_default_section (nodes_of_run ds) =
     (if ds \<noteq> [] \<and> headingLevels (label (hd ds)) = None
      then [defaultSection_of (pageNumber (hd ds)) (contentNode_of (hd ds))] else [])"
  by (cases ds)
     (auto simp: nodes_of_run_def filter_default_created_False created_nodes_def
       is_default_section_def headingNode_of_def defaultSection_of_def split: option.splits)

lemma content_run:
  assumes "cs \<noteq> []" and "list_all (\<lambda>d. headingLevels (label d) = None) cs"
  shows "run_builder cs =
     \<lparr> heap = [HeadingNode (''default_section_page_'' @ string_of_int (pageNumber (hd cs)))
                (''Content (Page '' @ string_of_int (pageNumber (hd cs)) @ '')'') ''H1''
                (pageNumber (hd cs)) None None None (map (\<lambda>d. Content (contentNode_of d)) cs)],
       hierarchy = [0], headingStack = [0] \<rparr>"
  using assms
proof (induction cs rule: rev_induct)
  case Nil
  then show ?case by simp
next
  case (snoc x xs)
  from snoc.prems have x: "headingLevels (label x) = None" by simp
  show ?case
  proof (cases "xs = []")
    case True
    then show ?thesis
      by (simp add: run_builder_def init_builder_def step_content_empty [OF x] defaultSection_of_def)
  next
    case False
    with snoc have "run_builder xs =
     \<lparr> heap = [HeadingNode (''default_section_page_'' @ string_of_int (pageNumber (hd xs)))
                (''Content (Page '' @ string_of_int (pageNumber (hd xs)) @ '')'') ''H1''
                (pageNumber (hd xs)) None None None (map (\<lambda>d. Content (contentNode_of d)) xs)],
       hierarchy = [0], headingStack = [0] \<rparr>" by simp
    with False show ?thesis
      by (simp add: run_builder_snoc step_content_nonempty [OF x] push_child_def)
  qed
qed

lemma has_content_append:
  "has_content (h @ [n]) c \<longleftrightarrow> has_content h c \<or> Content c \<in> set (h_children n)"
proof
  assume "has_content (h @ [n]) c"
  then obtain a where a: "a < Suc (length h)" and c: "Content c \<in> set (h_children ((h @ [n]) ! a))"
    by (auto simp: has_content_def)
  show "has_content h c \<or> Content c \<in> set (h_children n)"
  proof (cases "a < length h")
    case True
    with c have "Content c \<in> set (h_children (h ! a))" by (simp add: nth_append)
    with True show ?thesis unfolding has_content_def by blast
  next
    case False
    with a have "a = length h" by simp
    with c show ?thesis by simp
  qed
next
  assume "has_content h c \<or> Content c \<in> set (h_children n)"
  then show "has_content (h @ [n]) c"
  proof
    assume "has_content h c"
    then obtain a where "a < length h" "Content c \<in> set (h_children (h ! a))"
      by (auto simp: has_content_def)
    then have "a < length (h @ [n]) \<and> Content c \<in> set (h_children ((h @ [n]) ! a))"
      by (simp add: nth_append)
    then show ?thesis unfolding has_content_def by blast
  next
    assume "Content c \<in> set (h_children n)"
    then have "length h < length (h @ [n]) \<and> Content c \<in> set (h_children ((h @ [n]) ! length h))"
      by simp
    then show ?thesis unfolding has_content_def by blast
  qed
qed

lemma has_content_push_child:
  assumes "a < length h"
  shows "has_content (push_child h a ch) c \<longleftrightarrow> has_content h c \<or> ch = Content c"
proof
  assume "has_content (push_child h a ch) c"
  then obtain b where b: "b < length h" and c: "Content c \<in> set (h_children (push_child h a ch ! b))"
    by (auto simp: has_content_def length_push_child)
  show "has_content h c \<or> ch = Content c"
  proof (cases "Content c \<in> set (h_children (h ! b))")
    case True
    with b show ?thesis unfolding has_content_def by blast
  next
    case False
    with c show ?thesis by (simp add: children_push_child split: if_splits)
  qed
next
  assume "has_content h c \<or> ch = Content c"
  then show "has_content (push_child h a ch) c"
  proof
    assume "has_content h c"
    then obtain b where "b < length h" "Content c \<in> set (h_children (h ! b))"
      by (auto simp: has_content_def)
    then have "b < length (push_child h a ch) \<and> Content c \<in> set (h_children (push_child h a ch ! b))"
      by (auto simp: length_push_child children_push_child)
    then show ?thesis unfolding has_content_def by blast
  next
    assume "ch = Content c"
    with assms have "a < length (push_child h a ch) \<and> Content c \<in> set (h_children (push_child h a ch ! a))"
      by (simp add: length_push_child children_push_child)
    then show ?thesis unfolding has_content_def by blast
  qed
qed

lemma has_content_step:
  assumes inv: "builder_inv st"
  shows "has_content (heap (process_detection st d)) c \<longleftrightarrow>
     has_content (heap st) c \<or> (headingLevels (label d) = None \<and> c = contentNode_of d)"
proof (cases "headingLevels (label d)")
  case None
  show ?thesis
  proof (cases "headingStack st = []")
    case True
    show ?thesis
      unfolding step_content_empty [OF None True]
      by (simp add: has_content_append None defaultSection_of_def eq_commute)
  next
    case False
    then have "last (headingStack st) \<in> set (headingStack st)" by (rule last_in_set)
    with inv have l: "last (headingStack st) < length (heap st)" by (simp add: builder_inv_def)
    show ?thesis
      unfolding step_content_nonempty [OF None False]
      by (simp add: has_content_push_child [OF l] None eq_commute)
  qed
next
  case (Some level)
  let ?h = "heap st"
  have L: "level_number level \<noteq> None" using Some by (rule headingLevels_level)
  define s' where "s' = pop_headings ?h (level_number level) (headingStack st)"
  have h: "heap (process_detection st d) = (if s' = [] then ?h @ [headingNode_of level d]
     else push_child (?h @ [headingNode_of level d]) (last s') (Heading (length ?h)))"
    by (simp add: step_heading [OF Some] Let_def s'_def)
  have n: "has_content (?h @ [headingNode_of level d]) c = has_content ?h c"
    by (simp add: has_content_append headingNode_of_def)
  show ?thesis
  proof (cases "s' = []")
    case True
    then show ?thesis by (simp add: h n Some)
  next
    case False
    then have "last s' \<in> set s'" by (rule last_in_set)
    then have "last s' \<in> set (headingStack st)"
      by (simp add: s'_def pop_headings_inv [OF inv L])
    with inv have "last s' < length (?h @ [headingNode_of level d])"
      by (simp add: builder_inv_def less_Suc_eq)
    from has_content_push_child [OF this] False show ?thesis by (simp add: h n Some)
  qed
qed

lemma has_content_run:
  "has_content (heap (run_builder ds)) c \<longleftrightarrow>
     (\<exists>d \<in> set ds. headingLevels (label d) = None \<and> c = contentNode_of d)"
proof (induction ds rule: rev_induct)
  case Nil
  show ?case by (simp add: run_builder_def init_builder_def has_content_def)
next
  case (snoc x xs)
  have "has_content (heap (run_builder (xs @ [x]))) c \<longleftrightarrow>
      has_content (heap (run_builder xs)) c \<or> (headingLevels (label x) = None \<and> c = contentNode_of x)"
    by (simp only: run_builder_snoc has_content_step [OF inv_run])
  with snoc.IH show ?case by auto
qed

lemma via_fields:
  fixes xs ys :: "'c heading_node list"
  assumes "map node_fields xs = map node_fields ys"
  shows "map (\<lambda>n. g (node_fields n)) (filter (\<lambda>n. P (node_fields n)) xs) =
         map (\<lambda>n. g (node_fields n)) (filter (\<lambda>n. P (node_fields n)) ys)"
proof -
  have e: "map (\<lambda>n. g (node_fields n)) (filter (\<lambda>n. P (node_fields n)) zs) =
      map g (filter P (map node_fields zs))" for zs :: "'c heading_node list"
    by (induction zs) simp_all
  from assms show ?thesis by (simp only: e)
qed

lemma headings_created:
  "map (\<lambda>n. (h_id n, h_title n)) (filter (\<lambda>n. \<not> is_default_section n) (created_nodes b d)) =
     map (\<lambda>d. (det_id d, heading_title d)) (filter (\<lambda>d. headingLevels (label d) \<noteq> None) [d])"
  by (cases "headingLevels (label d)")
     (simp_all add: created_nodes_def is_default_section_def headingNode_of_def
        defaultSection_of_def)

lemma headings_created_concat:
  "map (\<lambda>n. (h_id n, h_title n))
     (filter (\<lambda>n. \<not> is_default_section n) (concat (map (created_nodes b) ds))) =
   map (\<lambda>d. (det_id d, heading_title d)) (filter (\<lambda>d. headingLevels (label d) \<noteq> None) ds)"
proof (induction ds)
  case Nil
  show ?case by simp
next
  case (Cons d ds)
  have "map (\<lambda>n. (h_id n, h_title n))
     (filter (\<lambda>n. \<not> is_default_section n) (concat (map (created_nodes b) (d # ds)))) =
     map (\<lambda>n. (h_id n, h_title n)) (filter (\<lambda>n. \<not> is_default_section n) (created_nodes b d)) @
     map (\<lambda>n. (h_id n, h_title n))
       (filter (\<lambda>n. \<not> is_default_section n) (concat (map (created_nodes b) ds)))"
    by simp
  also have "\<dots> = map (\<lambda>d. (det_id d, heading_title d)) (filter (\<lambda>d. headingLevels (label d) \<noteq> None) [d]) @
     map (\<lambda>d. (det_id d, heading_title d)) (filter (\<lambda>d. headingLevels (label d) \<noteq> None) ds)"
    by (simp only: headings_created Cons.IH)
  also have "\<dots> = map (\<lambda>d. (det_id d, heading_title d))
      (filter (\<lambda>d. headingLevels (label d) \<noteq> None) (d # ds))"
    by simp
  finally show ?case .
qed

lemma headings_nodes_of_run:
  "map (\<lambda>n. (h_id n, h_title n)) (filter (\<lambda>n. \<not> is_default_section n) (nodes_of_run ds)) =
   map (\<lambda>d. (det_id d, heading_title d)) (filter (\<lambda>d. headingLevels (label d) \<noteq> None) ds)"
proof (cases ds)
  case Nil
  then show ?thesis by (simp add: nodes_of_run_def)
next
  case (Cons d rest)
  have "map (\<lambda>n. (h_id n, h_title n)) (filter (\<lambda>n. \<not> is_default_section n) (nodes_of_run ds)) =
     map (\<lambda>n. (h_id n, h_title n)) (filter (\<lambda>n. \<not> is_default_section n) (created_nodes True d)) @
     map (\<lambda>n. (h_id n, h_title n))
       (filter (\<lambda>n. \<not> is_default_section n) (concat (map (created_nodes False) rest)))"
    by (simp add: Cons nodes_of_run_def)
  also have "\<dots> = map (\<lambda>d. (det_id d, heading_title d)) (filter (\<lambda>d. headingLevels (label d) \<noteq> None) [d]) @
     map (\<lambda>d. (det_id d, heading_title d)) (filter (\<lambda>d. headingLevels (label d) \<noteq> None) rest)"
    by (simp only: headings_created headings_created_concat)
  also have "\<dots> = map (\<lambda>d. (det_id d, heading_title d))
      (filter (\<lambda>d. headingLevels (label d) \<noteq> None) ds)"
    by (simp add: Cons)
  finally show ?thesis .
qed

lemma headings_run:
  "map (\<lambda>n. (h_id n, h_title n)) (filter (\<lambda>n. \<not> is_default_section n) (heap (run_builder ds))) =
   map (\<lambda>d. (det_id d, heading_title d)) (filter (\<lambda>d. headingLevels (label d) \<noteq> None) ds)"
proof -
  let ?g = "\<lambda>f. case f of (i, t, l, p, b, bn, cf) \<Rightarrow> (i :: string, t :: string)"
  let ?P = "\<lambda>f. case f of (i, t, l, p, b, bn, cf) \<Rightarrow> b \<noteq> (None :: int list option)"
  have g: "(\<lambda>n. ?g (node_fields n)) = (\<lambda>n :: child heading_node. (h_id n, h_title n))"
    by (simp add: node_fields_def fun_eq_iff)
  have P: "(\<lambda>n. ?P (node_fields n)) = (\<lambda>n :: child heading_node. \<not> is_default_section n)"
    by (simp add: node_fields_def is_default_section_def fun_eq_iff)
  from via_fields [OF fields_run, of ?g ?P ds]
  have "map (\<lambda>n. (h_id n, h_title n)) (filter (\<lambda>n. \<not> is_default_section n) (heap (run_builder ds))) =
      map (\<lambda>n. (h_id n, h_title n)) (filter (\<lambda>n. \<not> is_default_section n) (nodes_of_run ds))"
    unfolding g P .
  then show ?thesis by (simp only: headings_nodes_of_run)
qed

lemma defaults_run:
  "map node_fields (filter is_default_section (heap (run_builder ds))) =
   map node_fields (filter is_default_section (nodes_of_run ds))"
proof -
  let ?P = "\<lambda>f. case f of (i, t, l, p, b, bn, cf) \<Rightarrow> b = (None :: int list option)"
  have P: "(\<lambda>n. ?P (node_fields n)) = (is_default_section :: child heading_node \<Rightarrow> bool)"
    by (simp add: node_fields_def is_default_section_def fun_eq_iff)
  from via_fields [OF fields_run, of "\<lambda>f. f" ?P ds] show ?thesis unfolding P .
qed

text \<open>
  Claim C1 says that content met on a new page, with still no heading, gets a fresh default
  section for that page.  With a Text on page 1 and a Table on page 2 and no heading, the
  code builds one top-level node, the default section of page 1, and the Table of page 2 is
  its second child: the default section pushed for page 1 is still on the stack, and the
  test of line 724 reads the stack only, not the page.
\<close>

theorem C1_later_page_joins_earlier_default_section_counterexample:
  "br_hierarchy (buildDocumentHierarchy
      [detection_on ''page1_detection1'' ''Text'' ''first'' 1 1,
       detection_on ''page2_detection1'' ''Table'' ''second'' 2 1]) = [0]
   \<and> map node_fields (br_heap (buildDocumentHierarchy
      [detection_on ''page1_detection1'' ''Text'' ''first'' 1 1,
       detection_on ''page2_detection1'' ''Table'' ''second'' 2 1])) =
     [(''default_section_page_1'', ''Content (Page 1)'', ''H1'', 1, None, None, None)]
   \<and> map h_children (br_heap (buildDocumentHierarchy
      [detection_on ''page1_detection1'' ''Text'' ''first'' 1 1,
       detection_on ''page2_detection1'' ''Table'' ''second'' 2 1])) =
     [[Content (contentNode_of (detection_on ''page1_detection1'' ''Text'' ''first'' 1 1)),
       Content (contentNode_of (detection_on ''page2_detection1'' ''Table'' ''second'' 2 1))]]
   \<and> c_page (contentNode_of (detection_on ''page2_detection1'' ''Table'' ''second'' 2 1)) = 2"
  by code_simp

text \<open>
  Claim C1, amended.  The stack is empty before the first detection and never again.  So a
  default section is synthesized exactly when the first detection of the sequence is
  content: the heap then holds exactly one default section, with id and title derived from
  that detection's page number, level \<^verbatim>\<open>H1\<close> and that page; otherwise it holds none.  And a
  sequence that begins with content only, on whatever pages, yields that one top-level
  section with all of this content as its children in order, the section alone on the
  stack.
\<close>

theorem C1_one_default_section_per_run:
  "(headingStack (run_builder ds) = []) = (ds = [])
   \<and> map node_fields (filter is_default_section (heap (run_builder ds))) =
     (if ds \<noteq> [] \<and> headingLevels (label (hd ds)) = None
      then [(''default_section_page_'' @ string_of_int (pageNumber (hd ds)),
             ''Content (Page '' @ string_of_int (pageNumber (hd ds)) @ '')'',
             ''H1'', pageNumber (hd ds), None, None, None)]
      else [])
   \<and> (cs \<noteq> [] \<and> list_all (\<lambda>d. headingLevels (label d) = None) cs \<longrightarrow>
        run_builder cs =
          \<lparr> heap = [HeadingNode (''default_section_page_'' @ string_of_int (pageNumber (hd cs)))
                     (''Content (Page '' @ string_of_int (pageNumber (hd cs)) @ '')'') ''H1''
                     (pageNumber (hd cs)) None None None
                     (map (\<lambda>d. Content (contentNode_of d)) cs)],
            hierarchy = [0], headingStack = [0] \<rparr>)"
proof (intro conjI impI)
  show "(headingStack (run_builder ds) = []) = (ds = [])"
    using stack_nonempty_run [of ds] by (auto simp: run_builder_def init_builder_def)
next
  show "map node_fields (filter is_default_section (heap (run_builder ds))) =
     (if ds \<noteq> [] \<and> headingLevels (label (hd ds)) = None
      then [(''default_section_page_'' @ string_of_int (pageNumber (hd ds)),
             ''Content (Page '' @ string_of_int (pageNumber (hd ds)) @ '')'',
             ''H1'', pageNumber (hd ds), None, None, None)]
      else [])"
    by (simp add: defaults_run filter_default_nodes_of_run node_fields_def defaultSection_of_def)
next
  assume "cs \<noteq> [] \<and> list_all (\<lambda>d. headingLevels (label d) = None) cs"
  then show "run_builder cs =
          \<lparr> heap = [HeadingNode (''default_section_page_'' @ string_of_int (pageNumber (hd cs)))
                     (''Content (Page '' @ string_of_int (pageNumber (hd cs)) @ '')'') ''H1''
                     (pageNumber (hd cs)) None None None
                     (map (\<lambda>d. Content (contentNode_of d)) cs)],
            hierarchy = [0], headingStack = [0] \<rparr>"
    by (intro content_run) simp_all
qed

text \<open>
  The theorem at two content detections of page 1 followed by one of page 2.
\<close>

theorem C1_one_default_section_per_run_witness:
  "run_builder
     [detection_on ''page1_detection1'' ''Text'' ''first'' 1 1,
      detection_on ''page1_detection2'' ''Table'' ''grid'' 1 2,
      detection_on ''page2_detection1'' ''Text'' ''second'' 2 1] =
   \<lparr> heap = [HeadingNode ''default_section_page_1'' ''Content (Page 1)'' ''H1'' 1 None None None
       [Content (contentNode_of (detection_on ''page1_detection1'' ''Text'' ''first'' 1 1)),
        Content (contentNode_of (detection_on ''page1_detection2'' ''Table'' ''grid'' 1 2)),
        Content (contentNode_of (detection_on ''page2_detection1'' ''Text'' ''second'' 2 1))]],
     hierarchy = [0], headingStack = [0] \<rparr>"
proof -
  let ?cs = "[detection_on ''page1_detection1'' ''Text'' ''first'' 1 1,
      detection_on ''page1_detection2'' ''Table'' ''grid'' 1 2,
      detection_on ''page2_detection1'' ''Text'' ''second'' 2 1]"
  have h: "?cs \<noteq> [] \<and> list_all (\<lambda>d. headingLevels (label d) = None) ?cs" by code_simp
  have p: "pageNumber (hd ?cs) = 1" by code_simp
  have s: "string_of_int 1 = ''1''" by code_simp
  from C1_one_default_section_per_run [of ?cs ?cs] h
  have "run_builder ?cs =
          \<lparr> heap = [HeadingNode (''default_section_page_'' @ string_of_int (pageNumber (hd ?cs)))
                     (''Content (Page '' @ string_of_int (pageNumber (hd ?cs)) @ '')'') ''H1''
                     (pageNumber (hd ?cs)) None None None
                     (map (\<lambda>d. Content (contentNode_of d)) ?cs)],
            hierarchy = [0], headingStack = [0] \<rparr>"
    by blast
  then show ?thesis unfolding p s by simp
qed

text \<open>
  Claim C8 says that a text matching a reserved placeholder pattern is replaced by a
  fallback derived from label and page.  The builder tests only whether the text is empty
  (lines 677 and 713).  With the placeholder of line 120 as text, which the run itself
  counts as missing text (lines 802--805), the Title node's \<^verbatim>\<open>title\<close> and the Text node's
  \<^verbatim>\<open>content\<close> are the placeholder, not the fallback.
\<close>

theorem C8_placeholder_is_displayed_counterexample:
  "\<not> has_extracted_text (detection_on ''page1_detection1'' ''Title'' (ocr_not_available ''Title'') 1 1)
   \<and> \<not> has_extracted_text (detection_on ''page1_detection2'' ''Text'' (ocr_not_available ''Text'') 1 2)
   \<and> map h_title (br_heap (buildDocumentHierarchy
       [detection_on ''page1_detection1'' ''Title'' (ocr_not_available ''Title'') 1 1,
        detection_on ''page1_detection2'' ''Text'' (ocr_not_available ''Text'') 1 2])) =
     [''[Title content - OCR not available]'']
   \<and> map (\<lambda>ch. case ch of Content c \<Rightarrow> c_content c | Heading a \<Rightarrow> [])
       (concat (map h_children (br_heap (buildDocumentHierarchy
       [detection_on ''page1_detection1'' ''Title'' (ocr_not_available ''Title'') 1 1,
        detection_on ''page1_detection2'' ''Text'' (ocr_not_available ''Text'') 1 2])))) =
     [''[Text content - OCR not available]'']
   \<and> ''[Title content - OCR not available]'' \<noteq> ''Title (Page 1)''
   \<and> ''[Text content - OCR not available]'' \<noteq> ''Text content (Page 1)''"
  by code_simp

text \<open>
  Claim C8, amended.  The displayed text is the detection's \<^verbatim>\<open>extractedText\<close> whenever that
  string is not empty, a placeholder included, and the fallback derived from label and page
  number exactly when it is empty.  The heading nodes of the heap are, in order, those of
  the heading detections, each with the detection's id and this title; the content nodes
  found in the heap are exactly those of the content detections; and a content node's
  \<^verbatim>\<open>content\<close> is this text with the content fallback.
\<close>

theorem C8_display_text_is_the_nonempty_text:
  "map (\<lambda>n. (h_id n, h_title n)) (filter (\<lambda>n. \<not> is_default_section n) (heap (run_builder ds))) =
     map (\<lambda>d. (det_id d,
                if extractedText d \<noteq> [] then extractedText d
                else label d @ '' (Page '' @ string_of_int (pageNumber d) @ '')''))
       (filter (\<lambda>d. headingLevels (label d) \<noteq> None) ds)
   \<and> has_content (heap (run_builder ds)) c =
       (\<exists>d \<in> set ds. headingLevels (label d) = None \<and> c = contentNode_of d)
   \<and> c_content (contentNode_of d) =
       (if extractedText d \<noteq> [] then extractedText d
        else label d @ '' content (Page '' @ string_of_int (pageNumber d) @ '')'')"
proof -
  have a: "map (\<lambda>n. (h_id n, h_title n)) (filter (\<lambda>n. \<not> is_default_section n) (heap (run_builder ds))) =
     map (\<lambda>d. (det_id d,
                if extractedText d \<noteq> [] then extractedText d
                else label d @ '' (Page '' @ string_of_int (pageNumber d) @ '')''))
       (filter (\<lambda>d. headingLevels (label d) \<noteq> None) ds)"
    using headings_run [of ds] unfolding heading_title_def .
  have b: "c_content (contentNode_of d) =
       (if extractedText d \<noteq> [] then extractedText d
        else label d @ '' content (Page '' @ string_of_int (pageNumber d) @ '')'')"
    by (simp add: contentNode_of_def content_text_def)
  from a b has_content_run [of ds c] show ?thesis by blast
qed

section \<open>The run as a whole\<close>

lemma csvRows_save:
  "csvRows (saveBoundingBoxesToJson env results totalTime) =
     map csv_row_of (js_sort page_cmp (snd (collect_results results)))"
  by (simp add: saveBoundingBoxesToJson_def Let_def br_detections_build split: prod.splits)

lemma mset_confidence_all_detections:
  "mset (map confidence
     (concat (map (\<lambda>pr. map (enrich pr) (pr_detections pr)) (main_results engine ex ps)))) =
   mset (concat (map (\<lambda>(imagePath, inp).
                       map (\<lambda>p. toFixed 3 (score_of p)) (filter keeps (predictions inp))) ps))"
proof (induction ps rule: rev_induct)
  case Nil
  show ?case by (simp add: main_results_def)
next
  case (snoc x ps)
  obtain path inp where x: "x = (path, inp)" by (cases x)
  let ?pr = "processPage engine ex inp path (int (length ps) + 1)"
  have "mset (map (\<lambda>d. confidence (detection.truncate d)) (pr_detections ?pr)) =
     mset (map (\<lambda>p. toFixed 3 (score_of p)) (filter keeps (predictions inp)))"
    by (rule mset_processPage) (rule confidence_make_detection)
  then have "mset (map confidence (map (enrich ?pr) (pr_detections ?pr))) =
     mset (map (\<lambda>p. toFixed 3 (score_of p)) (filter keeps (predictions inp)))"
    by (simp add: confidence_enrich comp_def detection.truncate_def)
  with snoc.IH show ?case by (simp add: x main_results_snoc)
qed

text \<open>
  Claim C9.  The only write to its input that \<^verbatim>\<open>buildDocumentHierarchy\<close> performs is the
  in-place sort of line 650, and the Export Assembler writes to no detection: it copies.
  On an array ordered by page number and reading order the sort changes nothing: the
  array after the call is the array before it, element for element.  The array
  \<^verbatim>\<open>allDetections\<close> that a run hands to the builder is so ordered, hence unchanged.  And
  the flat view that is exported is, on the fields the pages' detections have, the
  concatenation of the pages' detection lists in page order: same order, same values.
\<close>

theorem C9_detection_list_unchanged:
  "(sorted_wrt (\<lambda>a b. page_cmp a b \<le> 0) ds \<longrightarrow> br_detections (buildDocumentHierarchy ds) = ds)
   \<and> sorted_wrt (\<lambda>a b. page_cmp a b \<le> 0) (snd (collect_results (main_results engine ex imagePages)))
   \<and> br_detections (buildDocumentHierarchy (snd (collect_results (main_results engine ex imagePages)))) =
       snd (collect_results (main_results engine ex imagePages))
   \<and> map seq_detection.truncate (allDetections (main engine ex env imagePages totalTime)) =
       concat (map pr_detections (main_results engine ex imagePages))"
proof -
  let ?all = "snd (collect_results (main_results engine ex imagePages))"
  have g: "br_detections (buildDocumentHierarchy xs) = xs"
    if "sorted_wrt (\<lambda>a b. page_cmp a b \<le> 0) xs" for xs
    using that by (simp add: br_detections_build js_sort_sorted)
  have srt: "sorted_wrt (\<lambda>a b. page_cmp a b \<le> 0) ?all"
    using sorted_all_detections [of engine ex imagePages] by (simp add: snd_collect_results)
  have t: "map seq_detection.truncate ?all = concat (map pr_detections (main_results engine ex imagePages))"
    by (simp add: snd_collect_results map_concat comp_def truncate_enrich)
  have "allDetections (main engine ex env imagePages totalTime) = ?all"
    using g [OF srt] by (simp add: main_def allDetections_save br_detections_build)
  with t have v: "map seq_detection.truncate (allDetections (main engine ex env imagePages totalTime)) =
       concat (map pr_detections (main_results engine ex imagePages))"
    by simp
  from g [of ds] srt g [OF srt] v show ?thesis by blast
qed

text \<open>
  The theorem at an ordered list of three detections on two pages.
\<close>

theorem C9_detection_list_unchanged_witness:
  "sorted_wrt (\<lambda>a b. page_cmp a b \<le> 0)
     [detection_on ''page1_detection1'' ''Title'' ''Report'' 1 1,
      detection_on ''page1_detection2'' ''Text'' ''body'' 1 2,
      detection_on ''page2_detection1'' ''Text'' ''more'' 2 1]
   \<and> br_detections (buildDocumentHierarchy
     [detection_on ''page1_detection1'' ''Title'' ''Report'' 1 1,
      detection_on ''page1_detection2'' ''Text'' ''body'' 1 2,
      detection_on ''page2_detection1'' ''Text'' ''more'' 2 1]) =
     [detection_on ''page1_detection1'' ''Title'' ''Report'' 1 1,
      detection_on ''page1_detection2'' ''Text'' ''body'' 1 2,
      detection_on ''page2_detection1'' ''Text'' ''more'' 2 1]"
proof -
  let ?ds = "[detection_on ''page1_detection1'' ''Title'' ''Report'' 1 1,
      detection_on ''page1_detection2'' ''Text'' ''body'' 1 2,
      detection_on ''page2_detection1'' ''Text'' ''more'' 2 1]"
  have s: "sorted_wrt (\<lambda>a b. page_cmp a b \<le> 0) ?ds"
    by (simp add: page_cmp_def detection_on_def)
  with C9_detection_list_unchanged [of ?ds]
  have "br_detections (buildDocumentHierarchy ?ds) = ?ds" by blast
  with s show ?thesis by blast
qed

section \<open>The heading stack\<close>

lemma heading_step_inserts:
  assumes inv: "builder_inv st" and lev: "headingLevels (label d) = Some level"
    and kept: "kept = filter (\<lambda>a. js_lt (level_at (heap st) a) (level_number level)) (headingStack st)"
  shows "headingStack (process_detection st d) = kept @ [length (heap st)]"
    and "hierarchy (process_detection st d) =
           (if kept = [] then hierarchy st @ [length (heap st)] else hierarchy st)"
    and "kept \<noteq> [] \<Longrightarrow>
           h_children (heap (process_detection st d) ! last kept) =
             h_children (heap st ! last kept) @ [Heading (length (heap st))]"
proof -
  from lev have L: "level_number level \<noteq> None" by (rule headingLevels_level)
  have p: "pop_headings (heap st) (level_number level) (headingStack st) = kept"
    by (simp only: kept pop_headings_inv [OF inv L])
  show "headingStack (process_detection st d) = kept @ [length (heap st)]"
    by (simp add: step_heading [OF lev] Let_def p)
  show "hierarchy (process_detection st d) =
           (if kept = [] then hierarchy st @ [length (heap st)] else hierarchy st)"
    by (simp add: step_heading [OF lev] Let_def p)
  show "h_children (heap (process_detection st d) ! last kept) =
             h_children (heap st ! last kept) @ [Heading (length (heap st))]" if ne: "kept \<noteq> []"
  proof -
    from ne have "last kept \<in> set kept" by (rule last_in_set)
    then have "last kept \<in> set (headingStack st)" by (simp add: kept)
    with inv have l: "last kept < length (heap st)" by (simp add: builder_inv_def)
    with ne show ?thesis
      by (simp add: step_heading [OF lev] Let_def p children_push_child nth_append)
  qed
qed

text \<open>
  Claim C2.  After any sequence of detections the level numbers along the stack, bottom to
  top, are strictly increasing.  When the next detection is a heading, the loop of lines
  690--697 removes from the stack exactly the entries whose level number is not below the
  new one; the new node is then inserted, into \<^verbatim>\<open>hierarchy\<close> when nothing is left on the
  stack and else as the last child of the new top, and pushed.  And whenever a heading is
  nested in a node, directly or at any depth, its level number is strictly larger than the
  node's: a heading is never nested in a heading of the same level before it.
\<close>

theorem C2_heading_stack_strictly_increasing:
  "sorted_wrt js_lt (stack_levels (run_builder ds))
   \<and> (headingLevels (label d) = Some level \<longrightarrow>
        (let st = run_builder ds;
             kept = filter (\<lambda>a. js_lt (level_at (heap st) a) (level_number level)) (headingStack st)
         in headingStack (process_detection st d) = kept @ [length (heap st)]
            \<and> hierarchy (process_detection st d) =
                (if kept = [] then hierarchy st @ [length (heap st)] else hierarchy st)
            \<and> (kept \<noteq> [] \<longrightarrow>
                  h_children (heap (process_detection st d) ! last kept) =
                    h_children (heap st ! last kept) @ [Heading (length (heap st))])))
   \<and> ((a, c) \<in> (nested_in (heap (run_builder ds)))\<^sup>+ \<longrightarrow>
        js_lt (level_at (heap (run_builder ds)) a) (level_at (heap (run_builder ds)) c))"
proof (intro conjI impI)
  show "sorted_wrt js_lt (stack_levels (run_builder ds))"
    using inv_run [of ds] by (simp add: builder_inv_def)
next
  assume lev: "headingLevels (label d) = Some level"
  from heading_step_inserts [OF inv_run lev refl, of ds]
  show "let st = run_builder ds;
            kept = filter (\<lambda>a. js_lt (level_at (heap st) a) (level_number level)) (headingStack st)
        in headingStack (process_detection st d) = kept @ [length (heap st)]
           \<and> hierarchy (process_detection st d) =
               (if kept = [] then hierarchy st @ [length (heap st)] else hierarchy st)
           \<and> (kept \<noteq> [] \<longrightarrow>
                 h_children (heap (process_detection st d) ! last kept) =
                   h_children (heap st ! last kept) @ [Heading (length (heap st))])"
    unfolding Let_def by blast
next
  assume "(a, c) \<in> (nested_in (heap (run_builder ds)))\<^sup>+"
  with inv_run show "js_lt (level_at (heap (run_builder ds)) a) (level_at (heap (run_builder ds)) c)"
    by (rule nested_levels)
qed

text \<open>
  The theorem at a Title, a Section-header with a Text below it, and a second
  Section-header: the first Section-header is popped, the stack becomes Title, second
  Section-header, and the two Section-headers are both children of the Title.
\<close>

theorem C2_heading_stack_strictly_increasing_witness:
  "stack_levels (run_builder
      [detection_on ''page1_detection1'' ''Title'' ''Report'' 1 1,
       detection_on ''page1_detection2'' ''Section-header'' ''Scope'' 1 2,
       detection_on ''page1_detection3'' ''Text'' ''body'' 1 3]) = [Some 1, Some 2]
   \<and> headingStack (process_detection (run_builder
      [detection_on ''page1_detection1'' ''Title'' ''Report'' 1 1,
       detection_on ''page1_detection2'' ''Section-header'' ''Scope'' 1 2,
       detection_on ''page1_detection3'' ''Text'' ''body'' 1 3])
      (detection_on ''page1_detection4'' ''Section-header'' ''Method'' 1 4)) = [0, 2]
   \<and> map h_children (heap (process_detection (run_builder
      [detection_on ''page1_detection1'' ''Title'' ''Report'' 1 1,
       detection_on ''page1_detection2'' ''Section-header'' ''Scope'' 1 2,
       detection_on ''page1_detection3'' ''Text'' ''body'' 1 3])
      (detection_on ''page1_detection4'' ''Section-header'' ''Method'' 1 4))) =
     [[Heading 1, Heading 2],
      [Content (contentNode_of (detection_on ''page1_detection3'' ''Text'' ''body'' 1 3))],
      []]
   \<and> js_lt (Some 1) (Some 2)"
proof -
  let ?ds = "[detection_on ''page1_detection1'' ''Title'' ''Report'' 1 1,
       detection_on ''page1_detection2'' ''Section-header'' ''Scope'' 1 2,
       detection_on ''page1_detection3'' ''Text'' ''body'' 1 3]"
  let ?d = "detection_on ''page1_detection4'' ''Section-header'' ''Method'' 1 4"
  note c2 = C2_heading_stack_strictly_increasing [of ?ds ?d "''H2''" 0 1, unfolded Let_def]
  have lev: "headingLevels (label ?d) = Some ''H2''" by code_simp
  have h1: "heap (run_builder ?ds) ! 0 =
      HeadingNode ''page1_detection1'' ''Report'' ''H1'' 1 (Some [0, 0, 10, 10])
        (Some [Some 0, Some 0, Some (1 / 10), Some (1 / 10)]) (Some (9 / 10)) [Heading 1]"
    by code_simp
  have len: "length (heap (run_builder ?ds)) = 2" by code_simp
  have "(0, 1) \<in> nested_in (heap (run_builder ?ds))"
    by (simp add: nested_in_def len h1)
  then have n: "(0, 1) \<in> (nested_in (heap (run_builder ?ds)))\<^sup>+" by (rule r_into_trancl)
  have l0: "level_at (heap (run_builder ?ds)) 0 = Some 1" by code_simp
  have l1: "level_at (heap (run_builder ?ds)) 1 = Some 2" by code_simp
  have lv: "stack_levels (run_builder ?ds) = [Some 1, Some 2]" by code_simp
  have f: "filter (\<lambda>a. js_lt (level_at (heap (run_builder ?ds)) a) (level_number ''H2''))
            (headingStack (run_builder ?ds)) @ [length (heap (run_builder ?ds))] = [0, 2]"
    by code_simp
  have ch: "map h_children (heap (process_detection (run_builder ?ds) ?d)) =
     [[Heading 1, Heading 2],
      [Content (contentNode_of (detection_on ''page1_detection3'' ''Text'' ''body'' 1 3))],
      []]"
    by code_simp
  from c2 lev have "headingStack (process_detection (run_builder ?ds) ?d) =
      filter (\<lambda>a. js_lt (level_at (heap (run_builder ?ds)) a) (level_number ''H2''))
            (headingStack (run_builder ?ds)) @ [length (heap (run_builder ?ds))]"
    by blast
  then have "headingStack (process_detection (run_builder ?ds) ?d) = [0, 2]"
    by (simp only: f)
  moreover from c2 n have "js_lt (Some 1) (Some 2)" unfolding l0 l1 by blast
  ultimately show ?thesis using lv ch by blast
qed

end
